theory Spec2Isabelle
  imports Main "HOL-Library.AList"
begin

section \<open>The crossword constraint solver of generate.py\<close>

subsection \<open>Data model\<close>

text \<open>
  A \<open>Variable\<close> is a slot of the grid: start cell, direction and length. The class lives in
  the module \<open>crossword\<close>; generate.py reads its fields \<open>i\<close>, \<open>j\<close>, \<open>direction\<close> and
  \<open>length\<close>.
\<close>

datatype direction = ACROSS | DOWN

record variable =
  var_i :: nat
  var_j :: nat
  var_direction :: direction
  var_length :: nat

text \<open>
  The puzzle description that generate.py receives. \<open>variables\<close> and \<open>words\<close> are Python
  sets; a set is modelled by the list of its elements in iteration order. \<open>overlaps\<close> is the
  table looked up as \<open>self.crossword.overlaps[x, y]\<close>: \<open>None\<close> when the two slots share no
  cell, otherwise the pair of offsets. The table is a parameter of the model; it is read only
  at pairs of distinct variables of the puzzle, the keys it has.
\<close>

record crossword =
  variables :: "variable list"
  words :: "string list"
  overlaps :: "variable \<times> variable \<Rightarrow> (nat \<times> nat) option"

text \<open>
  Modelled from the spec: \<open>Crossword.neighbors\<close> is defined in the module \<open>crossword\<close>, which
  generate.py imports. The spec says: variables x and y are neighbors iff an overlap entry
  exists for the pair. The result is a set; its iteration order is taken from \<open>variables\<close>.
\<close>

definition neighbors :: "crossword \<Rightarrow> variable \<Rightarrow> variable list" where
  "neighbors cw var = filter (\<lambda>v. v \<noteq> var \<and> overlaps cw (v, var) \<noteq> None) (variables cw)"

text \<open>
  \<open>self.domains\<close>: a dict from each variable of the puzzle to its set of candidate words.
  The key list of the dict is \<open>variables\<close>; the values are lists in iteration order.
  An assignment is a dict from variables to words, kept in insertion order.
\<close>

type_synonym domains = "variable \<Rightarrow> string list"

type_synonym arc = "variable \<times> variable"

type_synonym assignment = "(variable \<times> string) list"

text \<open>The exceptions the solver can raise; nothing in generate.py catches them.\<close>

datatype error = IndexError | TypeError | ValueError | RecursionError

text \<open>Python's \<open>word[k]\<close> for a non-negative \<open>k\<close>.\<close>

definition char_at :: "string \<Rightarrow> nat \<Rightarrow> error + char" where
  "char_at word k = (if k < length word then Inr (word ! k) else Inl IndexError)"

text \<open>\<open>for word in remove_list: s.remove(word)\<close> on a set \<open>s\<close>.\<close>

definition remove_words :: "string list \<Rightarrow> string list \<Rightarrow> string list" where
  "remove_words remove_list s = fold removeAll remove_list s"

text \<open>\<open>__init__\<close>: every variable starts with a copy of the whole word list.\<close>

definition init_domains :: "crossword \<Rightarrow> domains" where
  "init_domains cw = (\<lambda>var. words cw)"

subsection \<open>Node consistency\<close>

text \<open>The body of the loop over \<open>self.domains\<close>, for one variable.\<close>

definition enforce_var :: "variable \<Rightarrow> domains \<Rightarrow> domains" where
  "enforce_var var d =
     (let remove_word = filter (\<lambda>word. length word \<noteq> var_length var) (d var)
      in d(var := remove_words remove_word (d var)))"

definition enforce_node_consistency :: "crossword \<Rightarrow> domains \<Rightarrow> domains" where
  "enforce_node_consistency cw doms = fold enforce_var (variables cw) doms"

subsection \<open>Arc consistency\<close>

text \<open>
  The overlap condition of a pair of words, and the words of \<open>domains[x]\<close> that some word of
  \<open>domains[y]\<close> supports. The offsets must be inside the words: Python raises otherwise.
\<close>

definition matches :: "nat \<times> nat \<Rightarrow> string \<Rightarrow> string \<Rightarrow> bool" where
  "matches overlap w w' =
     (fst overlap < length w \<and> snd overlap < length w' \<and> w ! fst overlap = w' ! snd overlap)"

definition supported :: "nat \<times> nat \<Rightarrow> string list \<Rightarrow> string \<Rightarrow> bool" where
  "supported overlap y_dom w = list_ex (matches overlap w) y_dom"

text \<open>
  The inner loop of \<open>revise\<close>: it runs over every word of \<open>domains[y]\<close> without a break,
  so every comparison is evaluated.
\<close>

fun revise_inner :: "nat \<times> nat \<Rightarrow> string \<Rightarrow> string list \<Rightarrow> bool \<Rightarrow> error + bool" where
  "revise_inner overlap x_word [] arc_consistent = Inr arc_consistent"
| "revise_inner overlap x_word (y_word # ys) arc_consistent =
     (case char_at x_word (fst overlap) of
        Inl e \<Rightarrow> Inl e
      | Inr cx \<Rightarrow>
          (case char_at y_word (snd overlap) of
             Inl e \<Rightarrow> Inl e
           | Inr cy \<Rightarrow>
               revise_inner overlap x_word ys (if cx = cy then True else arc_consistent)))"

fun revise_outer ::
  "nat \<times> nat \<Rightarrow> string list \<Rightarrow> string list \<Rightarrow> bool \<times> string list \<Rightarrow> error + (bool \<times> string list)"
where
  "revise_outer overlap y_dom [] acc = Inr acc"
| "revise_outer overlap y_dom (x_word # xs) (changed, remove_list) =
     (case revise_inner overlap x_word y_dom False of
        Inl e \<Rightarrow> Inl e
      | Inr arc_consistent \<Rightarrow>
          if arc_consistent = False
          then revise_outer overlap y_dom xs (True, remove_list @ [x_word])
          else revise_outer overlap y_dom xs (changed, remove_list))"

definition revise :: "crossword \<Rightarrow> domains \<Rightarrow> variable \<Rightarrow> variable \<Rightarrow> error + (bool \<times> domains)" where
  "revise cw doms x y =
     (case overlaps cw (x, y) of
        None \<Rightarrow> Inr (False, doms)
      | Some overlap \<Rightarrow>
          (case revise_outer overlap (doms y) (doms x) (False, []) of
             Inl e \<Rightarrow> Inl e
           | Inr (changed, remove_list) \<Rightarrow>
               Inr (changed, doms(x := remove_words remove_list (doms x)))))"

text \<open>The initial worklist of \<open>ac3\<close> when \<open>arcs\<close> is \<open>None\<close>.\<close>

definition all_arcs :: "crossword \<Rightarrow> arc list" where
  "all_arcs cw = concat (map (\<lambda>x. map (\<lambda>var. (x, var)) (neighbors cw x)) (variables cw))"

text \<open>
  The arcs put back after a revision of \<open>current_arc = (x, y)\<close>: each is inserted at
  position 0, in the order of \<open>neighbors(x)\<close>.
\<close>

definition requeue :: "crossword \<Rightarrow> arc \<Rightarrow> arc list \<Rightarrow> arc list" where
  "requeue cw current_arc arc_list =
     fold (\<lambda>var al. if var \<noteq> snd current_arc then (fst current_arc, var) # al else al)
          (neighbors cw (fst current_arc)) arc_list"

text \<open>
  \<open>arc_list.pop(0)\<close> takes the head; a revision that empties the domain returns \<open>False\<close>
  at once; otherwise the arcs of \<open>requeue\<close> go to the front.
\<close>

function ac3_loop :: "crossword \<Rightarrow> domains \<Rightarrow> arc list \<Rightarrow> error + (bool \<times> domains)" where
  "ac3_loop cw doms [] = Inr (True, doms)"
| "ac3_loop cw doms (current_arc # arc_list) =
     (case revise cw doms (fst current_arc) (snd current_arc) of
        Inl e \<Rightarrow> Inl e
      | Inr (revised, doms') \<Rightarrow>
          if revised = True then
            (if length (doms' (fst current_arc)) = 0 then Inr (False, doms')
             else ac3_loop cw doms' (requeue cw current_arc arc_list))
          else ac3_loop cw doms' arc_list)"
  by pat_completeness auto

definition ac3 :: "crossword \<Rightarrow> domains \<Rightarrow> arc list option \<Rightarrow> error + (bool \<times> domains)" where
  "ac3 cw doms arcs =
     ac3_loop cw doms (case arcs of None \<Rightarrow> all_arcs cw | Some arc_list \<Rightarrow> arc_list)"

subsection \<open>Search\<close>

text \<open>
  Python's \<open>min(d, key=d.get)\<close> and \<open>max(d, key=d.get)\<close> on a dict \<open>d\<close>: the first key, in
  iteration order, whose value is least (greatest); \<open>ValueError\<close> on an empty dict. The entry
  is returned with its value, which is what \<open>d[key]\<close> reads.
\<close>

fun first_min :: "'k \<times> nat \<Rightarrow> ('k \<times> nat) list \<Rightarrow> 'k \<times> nat" where
  "first_min best [] = best"
| "first_min best (p # ps) = first_min (if snd p < snd best then p else best) ps"

fun first_max :: "'k \<times> nat \<Rightarrow> ('k \<times> nat) list \<Rightarrow> 'k \<times> nat" where
  "first_max best [] = best"
| "first_max best (p # ps) = first_max (if snd best < snd p then p else best) ps"

definition min_entry :: "('k \<times> nat) list \<Rightarrow> error + ('k \<times> nat)" where
  "min_entry d = (case d of [] \<Rightarrow> Inl ValueError | p # ps \<Rightarrow> Inr (first_min p ps))"

definition max_entry :: "('k \<times> nat) list \<Rightarrow> error + ('k \<times> nat)" where
  "max_entry d = (case d of [] \<Rightarrow> Inl ValueError | p # ps \<Rightarrow> Inr (first_max p ps))"

text \<open>
  \<open>consistent\<close>: the loop over the neighbours of one assigned variable. \<open>overlap[0]\<close> on a
  \<open>None\<close> entry is a \<open>TypeError\<close>; the left operand of the comparison is evaluated first.
\<close>

fun consistent_neighbours ::
  "crossword \<Rightarrow> assignment \<Rightarrow> variable \<Rightarrow> string \<Rightarrow> variable list \<Rightarrow> error + bool"
where
  "consistent_neighbours cw assignment var word [] = Inr True"
| "consistent_neighbours cw assignment var word (neighbour # rest) =
     (case map_of assignment neighbour of
        None \<Rightarrow> consistent_neighbours cw assignment var word rest
      | Some neighbour_word \<Rightarrow>
          (case overlaps cw (var, neighbour) of
             None \<Rightarrow> Inl TypeError
           | Some overlap \<Rightarrow>
               (case char_at word (fst overlap) of
                  Inl e \<Rightarrow> Inl e
                | Inr c \<Rightarrow>
                    (case char_at neighbour_word (snd overlap) of
                       Inl e \<Rightarrow> Inl e
                     | Inr c' \<Rightarrow>
                         if c \<noteq> c' then Inr False
                         else consistent_neighbours cw assignment var word rest))))"

fun consistent_loop ::
  "crossword \<Rightarrow> assignment \<Rightarrow> (variable \<times> string) list \<Rightarrow> string list \<Rightarrow> error + bool"
where
  "consistent_loop cw assignment [] used_words = Inr True"
| "consistent_loop cw assignment ((var, word) # rest) used_words =
     (if word \<in> set used_words then Inr False
      else if var_length var \<noteq> length word then Inr False
      else
        (case consistent_neighbours cw assignment var word (neighbors cw var) of
           Inl e \<Rightarrow> Inl e
         | Inr ok \<Rightarrow>
             if ok then consistent_loop cw assignment rest (used_words @ [word])
             else Inr False))"

definition consistent :: "crossword \<Rightarrow> assignment \<Rightarrow> error + bool" where
  "consistent cw assignment = consistent_loop cw assignment assignment []"

text \<open>
  \<open>order_domain_values\<close>. \<open>unordered_domain\<close> is a dict from the words of the domain to a
  counter. For each neighbour that is not assigned, every word is compared with every word
  of the neighbour's domain.
\<close>

fun count_conflicts :: "(nat \<times> nat) option \<Rightarrow> string \<Rightarrow> string list \<Rightarrow> nat \<Rightarrow> error + nat" where
  "count_conflicts overlap word [] n = Inr n"
| "count_conflicts overlap word (neighbour_word # rest) n =
     (case overlap of
        None \<Rightarrow> Inl TypeError
      | Some ov \<Rightarrow>
          (case char_at word (fst ov) of
             Inl e \<Rightarrow> Inl e
           | Inr c \<Rightarrow>
               (case char_at neighbour_word (snd ov) of
                  Inl e \<Rightarrow> Inl e
                | Inr c' \<Rightarrow> count_conflicts overlap word rest (if c \<noteq> c' then n + 1 else n))))"

fun count_words ::
  "(nat \<times> nat) option \<Rightarrow> string list \<Rightarrow> (string \<times> nat) list \<Rightarrow> error + (string \<times> nat) list"
where
  "count_words overlap neighbour_domain [] = Inr []"
| "count_words overlap neighbour_domain ((word, n) # rest) =
     (case count_conflicts overlap word neighbour_domain n of
        Inl e \<Rightarrow> Inl e
      | Inr n' \<Rightarrow>
          (case count_words overlap neighbour_domain rest of
             Inl e \<Rightarrow> Inl e
           | Inr rest' \<Rightarrow> Inr ((word, n') # rest')))"

fun count_neighbours ::
  "crossword \<Rightarrow> domains \<Rightarrow> assignment \<Rightarrow> variable \<Rightarrow> variable list \<Rightarrow> (string \<times> nat) list
     \<Rightarrow> error + (string \<times> nat) list"
where
  "count_neighbours cw doms assignment var [] unordered_domain = Inr unordered_domain"
| "count_neighbours cw doms assignment var (neighbour # rest) unordered_domain =
     (if map_of assignment neighbour = None then
        (case count_words (overlaps cw (var, neighbour)) (doms neighbour) unordered_domain of
           Inl e \<Rightarrow> Inl e
         | Inr counted \<Rightarrow> count_neighbours cw doms assignment var rest counted)
      else count_neighbours cw doms assignment var rest unordered_domain)"

text \<open>The \<open>while\<close> loop that moves the least constraining word to the ordered list.\<close>

function order_loop :: "(string \<times> nat) list \<Rightarrow> string list \<Rightarrow> error + string list" where
  "order_loop unordered_domain ordered_domain =
     (if length unordered_domain \<noteq> 0 then
        (case min_entry unordered_domain of
           Inl e \<Rightarrow> Inl e
         | Inr least_const \<Rightarrow>
             order_loop (AList.delete (fst least_const) unordered_domain)
               (ordered_domain @ [fst least_const]))
      else Inr ordered_domain)"
  by pat_completeness auto

definition order_domain_values ::
  "crossword \<Rightarrow> domains \<Rightarrow> variable \<Rightarrow> assignment \<Rightarrow> error + string list" where
  "order_domain_values cw doms var assignment =
     (let unordered_domain = fold (\<lambda>word ud. AList.update word 0 ud) (doms var) []
      in case count_neighbours cw doms assignment var (neighbors cw var) unordered_domain of
           Inl e \<Rightarrow> Inl e
         | Inr counted \<Rightarrow> order_loop counted [])"

text \<open>
  \<open>select_unassigned_variable\<close>. The loop runs \<open>len(unassigned_vars)\<close> times at most and
  stops at the first variable whose domain is larger than the least one.
\<close>

fun select_loop ::
  "crossword \<Rightarrow> nat \<Rightarrow> (variable \<times> nat) list \<Rightarrow> int \<Rightarrow> (variable \<times> nat) list
     \<Rightarrow> error + (variable \<times> nat) list"
where
  "select_loop cw 0 unassigned_vars min_domains var_options = Inr var_options"
| "select_loop cw (Suc k) unassigned_vars min_domains var_options =
     (case min_entry unassigned_vars of
        Inl e \<Rightarrow> Inl e
      | Inr (min_var, min_var_value) \<Rightarrow>
          if min_domains = - 1 then
            select_loop cw k (AList.delete min_var unassigned_vars) (int min_var_value)
              (AList.update min_var (length (neighbors cw min_var)) var_options)
          else if min_domains = int min_var_value then
            select_loop cw k (AList.delete min_var unassigned_vars) min_domains
              (AList.update min_var (length (neighbors cw min_var)) var_options)
          else Inr var_options)"

text \<open>The first loop: the dict of the variables that are not assigned, with their domain sizes.\<close>

definition unassigned :: "crossword \<Rightarrow> domains \<Rightarrow> assignment \<Rightarrow> (variable \<times> nat) list" where
  "unassigned cw doms assignment =
     fold (\<lambda>var uv. if map_of assignment var = None
                     then AList.update var (length (doms var)) uv else uv)
          (variables cw) []"

definition select_unassigned_variable ::
  "crossword \<Rightarrow> domains \<Rightarrow> assignment \<Rightarrow> error + variable" where
  "select_unassigned_variable cw doms assignment =
     (let unassigned_vars = unassigned cw doms assignment
      in case select_loop cw (length unassigned_vars) unassigned_vars (- 1) [] of
           Inl e \<Rightarrow> Inl e
         | Inr var_options \<Rightarrow>
             (case max_entry var_options of Inl e \<Rightarrow> Inl e | Inr best \<Rightarrow> Inr (fst best)))"

text \<open>
  \<open>backtrack\<close>. The first argument is the number of frames of \<open>backtrack\<close> the interpreter
  still allows; with none left the call raises \<open>RecursionError\<close>. The domains are passed
  through every call, as \<open>self\<close> is. \<open>try_words\<close> is the loop over the ordered words:
  \<open>assignment[var] = domain_word\<close>, then \<open>assignment.pop(var)\<close> when the word fails.
\<close>

fun backtrack ::
    "nat \<Rightarrow> crossword \<Rightarrow> domains \<Rightarrow> assignment \<Rightarrow> error + (assignment option \<times> domains)"
  and try_words ::
    "nat \<Rightarrow> crossword \<Rightarrow> domains \<Rightarrow> assignment \<Rightarrow> variable \<Rightarrow> string list
       \<Rightarrow> error + (assignment option \<times> domains)"
where
  "backtrack 0 cw doms assignment = Inl RecursionError"
| "backtrack (Suc depth) cw doms assignment =
     (if length assignment = length (variables cw) then Inr (Some assignment, doms)
      else
        (case select_unassigned_variable cw doms assignment of
           Inl e \<Rightarrow> Inl e
         | Inr var \<Rightarrow>
             (case order_domain_values cw doms var assignment of
                Inl e \<Rightarrow> Inl e
              | Inr ordered \<Rightarrow> try_words depth cw doms assignment var ordered)))"
| "try_words depth cw doms assignment var [] = Inr (None, doms)"
| "try_words depth cw doms assignment var (domain_word # rest) =
     (let assigned = AList.update var domain_word assignment in
      case consistent cw assigned of
        Inl e \<Rightarrow> Inl e
      | Inr ok \<Rightarrow>
          if ok = False then try_words depth cw doms (AList.delete var assigned) var rest
          else
            (case backtrack depth cw doms assigned of
               Inl e \<Rightarrow> Inl e
             | Inr (try_backtrack, doms') \<Rightarrow>
                 if try_backtrack \<noteq> None then Inr (try_backtrack, doms')
                 else try_words depth cw doms' (AList.delete var assigned) var rest))"

text \<open>
  \<open>solve\<close>: the result of \<open>ac3\<close> is not looked at; \<open>backtrack\<close> is called on the empty dict
  whatever \<open>ac3\<close> returned.
\<close>

definition solve :: "nat \<Rightarrow> crossword \<Rightarrow> domains \<Rightarrow> error + (assignment option \<times> domains)" where
  "solve depth cw doms =
     (let doms1 = enforce_node_consistency cw doms in
      case ac3 cw doms1 None of
        Inl e \<Rightarrow> Inl e
      | Inr (arc_consistent, doms2) \<Rightarrow> backtrack depth cw doms2 [])"

subsection \<open>What a solution is\<close>

text \<open>
  The properties of an assignment in the words of the specification. It is complete when it
  gives a word to every variable. It is consistent when no word is used twice, every word has
  the length of its variable, and every two assigned neighbouring variables agree on the
  letter of the cell they share.
\<close>

definition covers_all_variables :: "crossword \<Rightarrow> assignment \<Rightarrow> bool" where
  "covers_all_variables cw a = list_all (\<lambda>v. map_of a v \<noteq> None) (variables cw)"

definition words_unique :: "assignment \<Rightarrow> bool" where
  "words_unique a = distinct (map snd a)"

definition lengths_fit :: "assignment \<Rightarrow> bool" where
  "lengths_fit a = list_all (\<lambda>p. length (snd p) = var_length (fst p)) a"

definition neighbour_agrees ::
  "crossword \<Rightarrow> assignment \<Rightarrow> variable \<Rightarrow> string \<Rightarrow> variable \<Rightarrow> bool" where
  "neighbour_agrees cw a var word v' =
     (case map_of a v' of
        None \<Rightarrow> True
      | Some w' \<Rightarrow>
          (case overlaps cw (var, v') of None \<Rightarrow> False | Some ov \<Rightarrow> matches ov word w'))"

definition overlaps_agree :: "crossword \<Rightarrow> assignment \<Rightarrow> bool" where
  "overlaps_agree cw a =
     list_all (\<lambda>p. list_all (neighbour_agrees cw a (fst p) (snd p)) (neighbors cw (fst p))) a"

definition consistent_assignment :: "crossword \<Rightarrow> assignment \<Rightarrow> bool" where
  "consistent_assignment cw a = (words_unique a \<and> lengths_fit a \<and> overlaps_agree cw a)"

text \<open>
  Modelled from the spec: the overlap table is built by the module \<open>crossword\<close>, which
  generate.py imports. The spec says that the entries for \<open>(x, y)\<close> and \<open>(y, x)\<close> carry the
  swapped offsets of the one shared cell, that each offset is an offset into the word of its
  variable, and that the variables form a set.
\<close>

definition wf_crossword :: "crossword \<Rightarrow> bool" where
  "wf_crossword cw =
     (distinct (variables cw) \<and>
      list_all (\<lambda>x. list_all (\<lambda>y.
          x = y \<or>
          (case overlaps cw (y, x) of
             None \<Rightarrow> True
           | Some ov \<Rightarrow> overlaps cw (x, y) = Some (snd ov, fst ov) \<and>
                         snd ov < var_length x \<and> fst ov < var_length y))
        (variables cw)) (variables cw))"

text \<open>The domains as \<open>enforce_node_consistency\<close> leaves them.\<close>

definition node_consistent :: "crossword \<Rightarrow> domains \<Rightarrow> bool" where
  "node_consistent cw doms =
     list_all (\<lambda>v. list_all (\<lambda>w. length w = var_length v) (doms v)) (variables cw)"

text \<open>
  A partial assignment of the puzzle: a dict whose keys are variables of the puzzle and
  whose words are taken from the domains of their variables.
\<close>

definition partial_assignment :: "crossword \<Rightarrow> domains \<Rightarrow> assignment \<Rightarrow> bool" where
  "partial_assignment cw doms a =
     (distinct (map fst a) \<and>
      list_all (\<lambda>p. fst p \<in> set (variables cw) \<and> snd p \<in> set (doms (fst p))) a)"

subsection \<open>Notions used in the proofs\<close>

text \<open>
  When \<open>revise\<close> can index every word it compares: no comparison is made when one of the
  two domains is empty.
\<close>

definition indexable :: "nat \<times> nat \<Rightarrow> string list \<Rightarrow> string list \<Rightarrow> bool" where
  "indexable ov xs yd =
     (xs = [] \<or> yd = [] \<or>
      ((\<forall>w \<in> set xs. fst ov < length w) \<and> (\<forall>w' \<in> set yd. snd ov < length w')))"

text \<open>
  The measure of the worklist loop: the sizes of the domains of the variables that stand
  first in an arc of the worklist.
\<close>

definition arcs_weight :: "domains \<Rightarrow> arc list \<Rightarrow> nat" where
  "arcs_weight doms arc_list = (\<Sum>x \<in> fst ` set arc_list. length (doms x))"

subsection \<open>Example puzzles\<close>

text \<open>
  Two crossing slots: a three-letter slot across and a four-letter slot down that share the
  cell of their second letters. It is the grid with the rows \<^verbatim>\<open>#_#\<close>, \<^verbatim>\<open>___\<close>, \<^verbatim>\<open>#_#\<close>,
  \<^verbatim>\<open>#_#\<close>, where \<^verbatim>\<open>_\<close> is an open cell.
\<close>

definition slot_across :: variable where
  "slot_across = \<lparr>var_i = 1, var_j = 0, var_direction = ACROSS, var_length = 3\<rparr>"

definition slot_down :: variable where
  "slot_down = \<lparr>var_i = 0, var_j = 1, var_direction = DOWN, var_length = 4\<rparr>"

definition cross_overlaps :: "variable \<times> variable \<Rightarrow> (nat \<times> nat) option" where
  "cross_overlaps p =
     (if p = (slot_across, slot_down) \<or> p = (slot_down, slot_across) then Some (1, 1) else None)"

definition cross_puzzle :: "string list \<Rightarrow> crossword" where
  "cross_puzzle ws = \<lparr>variables = [slot_across, slot_down], words = ws, overlaps = cross_overlaps\<rparr>"

text \<open>
  Three slots: two across slots of three letters, in rows 0 and 2, joined by a down slot of
  three letters in column 1. It is the grid with the rows \<^verbatim>\<open>___\<close>, \<^verbatim>\<open>#_#\<close>, \<^verbatim>\<open>___\<close>.
\<close>

definition slot_top :: variable where
  "slot_top = \<lparr>var_i = 0, var_j = 0, var_direction = ACROSS, var_length = 3\<rparr>"

definition slot_mid :: variable where
  "slot_mid = \<lparr>var_i = 0, var_j = 1, var_direction = DOWN, var_length = 3\<rparr>"

definition slot_bottom :: variable where
  "slot_bottom = \<lparr>var_i = 2, var_j = 0, var_direction = ACROSS, var_length = 3\<rparr>"

definition ladder_overlaps :: "variable \<times> variable \<Rightarrow> (nat \<times> nat) option" where
  "ladder_overlaps p =
     (if p = (slot_top, slot_mid) then Some (1, 0)
      else if p = (slot_mid, slot_top) then Some (0, 1)
      else if p = (slot_mid, slot_bottom) then Some (2, 1)
      else if p = (slot_bottom, slot_mid) then Some (1, 2)
      else None)"

definition ladder_puzzle :: "string list \<Rightarrow> crossword" where
  "ladder_puzzle ws =
     \<lparr>variables = [slot_top, slot_mid, slot_bottom], words = ws, overlaps = ladder_overlaps\<rparr>"

text \<open>The domains of a puzzle after \<open>__init__\<close> and \<open>enforce_node_consistency\<close>.\<close>

definition node_consistent_domains :: "crossword \<Rightarrow> domains" where
  "node_consistent_domains cw = enforce_node_consistency cw (init_domains cw)"

section \<open>Properties\<close>

lemmas puzzle_defs =
  slot_across_def slot_down_def cross_overlaps_def cross_puzzle_def
  slot_top_def slot_mid_def slot_bottom_def ladder_overlaps_def ladder_puzzle_def

lemmas example_defs =
  puzzle_defs node_consistent_domains_def init_domains_def enforce_node_consistency_def
  enforce_var_def remove_words_def

subsection \<open>Node consistency: facts\<close>

lemma remove_words_filter: "remove_words rl s = filter (\<lambda>w. w \<notin> set rl) s"
  unfolding remove_words_def
proof (induction rl arbitrary: s)
  case Nil
  then show ?case by simp
next
  case (Cons a rl)
  have "removeAll a s = filter (\<lambda>w. w \<noteq> a) s" by (induction s) auto
  then show ?case using Cons by (simp add: conj_commute)
qed

lemma enforce_var_eq:
  "enforce_var var d = d(var := filter (\<lambda>word. length word = var_length var) (d var))"
proof -
  have "remove_words (filter (\<lambda>word. length word \<noteq> var_length var) (d var)) (d var)
          = filter (\<lambda>word. length word = var_length var) (d var)"
    unfolding remove_words_filter by (rule filter_cong) auto
  then show ?thesis by (simp add: enforce_var_def)
qed

lemma enforce_fold:
  "fold enforce_var vs doms
     = (\<lambda>var. if var \<in> set vs
               then filter (\<lambda>word. length word = var_length var) (doms var) else doms var)"
proof (induction vs arbitrary: doms)
  case Nil
  then show ?case by simp
next
  case (Cons v vs)
  have "fold enforce_var (v # vs) doms = fold enforce_var vs (enforce_var v doms)" by simp
  also have "\<dots> = (\<lambda>var. if var \<in> set vs
      then filter (\<lambda>word. length word = var_length var) (enforce_var v doms var)
      else enforce_var v doms var)" by (rule Cons.IH)
  also have "\<dots> = (\<lambda>var. if var \<in> set (v # vs)
      then filter (\<lambda>word. length word = var_length var) (doms var) else doms var)"
    by (rule ext) (simp add: enforce_var_eq)
  finally show ?case .
qed

lemma enforce_node_consistency_eq:
  "enforce_node_consistency cw doms
     = (\<lambda>var. if var \<in> set (variables cw)
               then filter (\<lambda>word. length word = var_length var) (doms var) else doms var)"
  unfolding enforce_node_consistency_def by (rule enforce_fold)

text \<open>
  Claim C8. After \<open>enforce_node_consistency\<close>, every word left in the domain of a variable
  of the puzzle has the length of that variable, and the words removed are exactly the
  words of another length: the domain is the old one filtered by length, in the same order.
\<close>

theorem C8_node_consistency:
  "\<forall>var \<in> set (variables cw).
     (\<forall>word \<in> set (enforce_node_consistency cw doms var). length word = var_length var) \<and>
     enforce_node_consistency cw doms var
       = filter (\<lambda>word. length word = var_length var) (doms var)"
  by (simp add: enforce_node_consistency_eq)

theorem C8_node_consistency_witness:
  "slot_down \<in> set (variables (cross_puzzle [''CAT'', ''CARS'', ''DOGS''])) \<and>
   enforce_node_consistency (cross_puzzle [''CAT'', ''CARS'', ''DOGS''])
       (init_domains (cross_puzzle [''CAT'', ''CARS'', ''DOGS''])) slot_down
     = [''CARS'', ''DOGS'']"
  using C8_node_consistency [of "cross_puzzle [''CAT'', ''CARS'', ''DOGS'']"
                                "init_domains (cross_puzzle [''CAT'', ''CARS'', ''DOGS''])"]
  by (simp add: cross_puzzle_def init_domains_def slot_down_def)

subsection \<open>Facts about \<open>revise\<close>\<close>

lemma revise_inner_result:
  "revise_inner ov xw ys ac = Inr r \<Longrightarrow> r = (ac \<or> supported ov ys xw)"
proof (induction ys arbitrary: ac)
  case Nil
  then show ?case by (simp add: supported_def)
next
  case (Cons y ys)
  from Cons.prems obtain cx cy where
    cx: "char_at xw (fst ov) = Inr cx" and cy: "char_at y (snd ov) = Inr cy" and
    rest: "revise_inner ov xw ys (if cx = cy then True else ac) = Inr r"
    by (auto split: sum.splits)
  from cx cy have m: "matches ov xw y = (cx = cy)"
    by (auto simp: matches_def char_at_def split: if_splits)
  from Cons.IH [OF rest] m show ?case
    by (auto simp: supported_def)
qed

lemma revise_inner_indices:
  "revise_inner ov xw ys ac = Inr r \<Longrightarrow> ys \<noteq> [] \<Longrightarrow>
     fst ov < length xw \<and> (\<forall>w' \<in> set ys. snd ov < length w')"
proof (induction ys arbitrary: ac)
  case Nil
  then show ?case by simp
next
  case (Cons y ys)
  from Cons.prems(1) obtain cx cy where
    cx: "char_at xw (fst ov) = Inr cx" and cy: "char_at y (snd ov) = Inr cy" and
    rest: "revise_inner ov xw ys (if cx = cy then True else ac) = Inr r"
    by (auto split: sum.splits)
  from cx cy have b: "fst ov < length xw" "snd ov < length y"
    by (auto simp: char_at_def split: if_splits)
  show ?case
  proof (cases "ys = []")
    case True
    with b show ?thesis by simp
  next
    case False
    from Cons.IH [OF rest False] b show ?thesis by simp
  qed
qed

lemma revise_inner_total:
  "fst ov < length xw \<Longrightarrow> \<forall>w' \<in> set ys. snd ov < length w' \<Longrightarrow>
     \<exists>r. revise_inner ov xw ys ac = Inr r"
  by (induction ys arbitrary: ac) (auto simp: char_at_def)

lemma revise_outer_result:
  "revise_outer ov yd xs (c, rl) = Inr (c', rl') \<Longrightarrow>
     rl' = rl @ filter (\<lambda>w. \<not> supported ov yd w) xs \<and>
     c' = (c \<or> filter (\<lambda>w. \<not> supported ov yd w) xs \<noteq> [])"
proof (induction xs arbitrary: c rl)
  case Nil
  then show ?case by simp
next
  case (Cons a xs)
  from Cons.prems obtain ac where ac: "revise_inner ov a yd False = Inr ac"
    by (auto split: sum.splits)
  from revise_inner_result [OF ac] have acs: "ac = supported ov yd a" by simp
  show ?case
  proof (cases ac)
    case True
    with Cons.prems ac have "revise_outer ov yd xs (c, rl) = Inr (c', rl')" by simp
    from Cons.IH [OF this] True acs show ?thesis by simp
  next
    case False
    with Cons.prems ac have "revise_outer ov yd xs (True, rl @ [a]) = Inr (c', rl')" by simp
    from Cons.IH [OF this] False acs show ?thesis by simp
  qed
qed

lemma revise_outer_total:
  "(yd \<noteq> [] \<Longrightarrow> (\<forall>w \<in> set xs. fst ov < length w) \<and> (\<forall>w' \<in> set yd. snd ov < length w')) \<Longrightarrow>
     \<exists>r. revise_outer ov yd xs acc = Inr r"
proof (induction xs arbitrary: acc)
  case Nil
  then show ?case by simp
next
  case (Cons a xs)
  obtain c rl where acc: "acc = (c, rl)" by (cases acc)
  have "\<exists>r. revise_inner ov a yd False = Inr r"
  proof (cases "yd = []")
    case True
    then show ?thesis by auto
  next
    case False
    with Cons.prems show ?thesis by (intro revise_inner_total) auto
  qed
  then obtain ac where ac: "revise_inner ov a yd False = Inr ac" by blast
  have ih: "\<And>acc'. \<exists>r. revise_outer ov yd xs acc' = Inr r"
    using Cons.IH Cons.prems by simp
  show ?case using ac acc ih by (cases ac) auto
qed

text \<open>What \<open>revise\<close> computes when it returns.\<close>

lemma revise_Some:
  assumes "overlaps cw (x, y) = Some ov" and "revise cw doms x y = Inr (changed, doms')"
  shows "doms' = doms(x := filter (supported ov (doms y)) (doms x))"
    and "changed = (filter (\<lambda>w. \<not> supported ov (doms y) w) (doms x) \<noteq> [])"
proof -
  from assms obtain c rl where
    ro: "revise_outer ov (doms y) (doms x) (False, []) = Inr (c, rl)" and
    ch: "changed = c" and d: "doms' = doms(x := remove_words rl (doms x))"
    by (auto simp: revise_def split: sum.splits)
  from revise_outer_result [OF ro] have
    rl: "rl = filter (\<lambda>w. \<not> supported ov (doms y) w) (doms x)" and
    c: "c = (filter (\<lambda>w. \<not> supported ov (doms y) w) (doms x) \<noteq> [])" by simp_all
  have "remove_words rl (doms x) = filter (supported ov (doms y)) (doms x)"
    unfolding remove_words_filter rl by (rule filter_cong) auto
  with d show "doms' = doms(x := filter (supported ov (doms y)) (doms x))" by simp
  from c ch show "changed = (filter (\<lambda>w. \<not> supported ov (doms y) w) (doms x) \<noteq> [])" by simp
qed

lemma revise_None:
  "overlaps cw (x, y) = None \<Longrightarrow> revise cw doms x y = Inr (False, doms)"
  by (simp add: revise_def)

lemma filter_length_less: "filter (\<lambda>w. \<not> P w) xs \<noteq> [] \<Longrightarrow> length (filter P xs) < length xs"
proof -
  assume "filter (\<lambda>w. \<not> P w) xs \<noteq> []"
  then have "0 < length (filter (\<lambda>w. \<not> P w) xs)" by simp
  moreover have "length xs = length (filter P xs) + length (filter (\<lambda>w. \<not> P w) xs)"
    by (rule sum_length_filter_compl [symmetric])
  ultimately show ?thesis by linarith
qed

lemma revise_False_same: "revise cw doms x y = Inr (False, doms') \<Longrightarrow> doms' = doms"
proof (cases "overlaps cw (x, y)")
  case None
  assume "revise cw doms x y = Inr (False, doms')"
  with None show ?thesis by (simp add: revise_def)
next
  case (Some ov)
  assume r: "revise cw doms x y = Inr (False, doms')"
  from revise_Some(2) [OF Some r] have "filter (\<lambda>w. \<not> supported ov (doms y) w) (doms x) = []"
    by simp
  then have "filter (supported ov (doms y)) (doms x) = doms x"
    by (simp add: filter_empty_conv filter_id_conv)
  with revise_Some(1) [OF Some r] show ?thesis by simp
qed

lemma revise_True_shrinks:
  assumes "revise cw doms x y = Inr (True, doms')"
  shows "length (doms' x) < length (doms x)" and "\<And>v. v \<noteq> x \<Longrightarrow> doms' v = doms v"
    and "\<And>v. length (doms' v) \<le> length (doms v)"
proof -
  from assms obtain ov where ov: "overlaps cw (x, y) = Some ov"
    by (cases "overlaps cw (x, y)") (auto simp: revise_def)
  note r = revise_Some [OF ov assms]
  from r(2) have "length (filter (supported ov (doms y)) (doms x)) < length (doms x)"
    by (intro filter_length_less) simp
  with r(1) show "length (doms' x) < length (doms x)" by simp
  from r(1) show "\<And>v. v \<noteq> x \<Longrightarrow> doms' v = doms v" by simp
  from r(1) show "\<And>v. length (doms' v) \<le> length (doms v)" by simp
qed

lemma revise_inner_ok_iff:
  "(\<exists>r. revise_inner ov xw ys ac = Inr r) = indexable ov [xw] ys"
proof
  assume "\<exists>r. revise_inner ov xw ys ac = Inr r"
  then obtain r where r: "revise_inner ov xw ys ac = Inr r" by blast
  show "indexable ov [xw] ys"
  proof (cases "ys = []")
    case True
    then show ?thesis by (simp add: indexable_def)
  next
    case False
    from revise_inner_indices [OF r False] show ?thesis by (simp add: indexable_def)
  qed
next
  assume i: "indexable ov [xw] ys"
  show "\<exists>r. revise_inner ov xw ys ac = Inr r"
  proof (cases "ys = []")
    case True
    then show ?thesis by auto
  next
    case False
    with i show ?thesis by (intro revise_inner_total) (auto simp: indexable_def)
  qed
qed

lemma revise_outer_ok_iff:
  "(\<exists>r. revise_outer ov yd xs acc = Inr r) = indexable ov xs yd"
proof (induction xs arbitrary: acc)
  case Nil
  then show ?case by (simp add: indexable_def)
next
  case (Cons a xs)
  obtain c rl where acc: "acc = (c, rl)" by (cases acc)
  have split: "indexable ov (a # xs) yd = (indexable ov [a] yd \<and> indexable ov xs yd)"
    by (auto simp: indexable_def)
  show ?case
  proof (cases "revise_inner ov a yd False")
    case (Inl e)
    then have "\<not> indexable ov [a] yd" using revise_inner_ok_iff [of ov a yd False] by simp
    with Inl acc split show ?thesis by simp
  next
    case (Inr ac)
    then have "indexable ov [a] yd" using revise_inner_ok_iff [of ov a yd False] by auto
    with Inr acc split Cons.IH show ?thesis by (cases ac) simp_all
  qed
qed

lemma indexable_filter: "indexable ov xs yd \<Longrightarrow> indexable ov (filter P xs) yd"
  by (auto simp: indexable_def)

lemma revise_ok_iff:
  "(\<exists>r. revise cw doms x y = Inr r)
     = (case overlaps cw (x, y) of None \<Rightarrow> True | Some ov \<Rightarrow> indexable ov (doms x) (doms y))"
proof (cases "overlaps cw (x, y)")
  case None
  then show ?thesis by (auto simp: revise_def)
next
  case (Some ov)
  show ?thesis
  proof (cases "revise_outer ov (doms y) (doms x) (False, [])")
    case (Inl e)
    then have "\<not> indexable ov (doms x) (doms y)"
      using revise_outer_ok_iff [of ov "doms y" "doms x" "(False, [])"] by simp
    with Some Inl show ?thesis by (simp add: revise_def)
  next
    case (Inr r)
    then have "indexable ov (doms x) (doms y)"
      using revise_outer_ok_iff [of ov "doms y" "doms x" "(False, [])"] by auto
    with Some Inr show ?thesis by (cases r) (simp add: revise_def)
  qed
qed

lemma revise_twice:
  assumes r: "revise cw doms x y = Inr (changed, doms')" and xy: "x \<noteq> y"
  shows "revise cw doms' x y = Inr (False, doms')"
proof (cases "overlaps cw (x, y)")
  case None
  then show ?thesis by (simp add: revise_def)
next
  case (Some ov)
  note d = revise_Some(1) [OF Some r]
  from r have "indexable ov (doms x) (doms y)"
    using revise_ok_iff [of cw doms x y] Some by auto
  then have "indexable ov (doms' x) (doms' y)"
    using d xy by (simp add: indexable_filter)
  then obtain c2 d2 where r2: "revise cw doms' x y = Inr (c2, d2)"
    using revise_ok_iff [of cw doms' x y] Some by auto
  have sup: "filter (\<lambda>w. \<not> supported ov (doms' y) w) (doms' x) = []"
    using d xy by (simp add: filter_empty_conv)
  with revise_Some(2) [OF Some r2] have "c2 = False" by simp
  with r2 revise_False_same [of cw doms' x y d2] show ?thesis by simp
qed

text \<open>
  Claim C7. When \<open>revise(x, y)\<close> returns: it adds no word to \<open>domains[x]\<close> and touches no other
  domain; with an overlap entry, the words it keeps are exactly the words of \<open>domains[x]\<close>
  that a word of \<open>domains[y]\<close> supports at the overlap offsets; with no overlap entry the
  domains are unchanged and the result is \<open>False\<close>; and a second call on the resulting
  domains removes nothing and returns \<open>False\<close> (for two different variables, the only pairs
  the overlap table has).
\<close>

theorem C7_revise:
  assumes "revise cw doms x y = Inr (changed, doms')"
  shows "set (doms' x) \<subseteq> set (doms x) \<and>
         (\<forall>v. v \<noteq> x \<longrightarrow> doms' v = doms v) \<and>
         (\<forall>ov. overlaps cw (x, y) = Some ov \<longrightarrow>
            doms' x = filter (supported ov (doms y)) (doms x)) \<and>
         (overlaps cw (x, y) = None \<longrightarrow> doms' = doms \<and> changed = False) \<and>
         (x \<noteq> y \<longrightarrow> revise cw doms' x y = Inr (False, doms'))"
proof (cases "overlaps cw (x, y)")
  case None
  with assms have "doms' = doms" "changed = False" by (simp_all add: revise_def)
  with None show ?thesis by (simp add: revise_def)
next
  case (Some ov)
  note d = revise_Some(1) [OF Some assms]
  from d have "set (doms' x) \<subseteq> set (doms x)" by auto
  moreover from d have "\<forall>v. v \<noteq> x \<longrightarrow> doms' v = doms v" by simp
  moreover from d Some have "\<forall>ov. overlaps cw (x, y) = Some ov \<longrightarrow>
      doms' x = filter (supported ov (doms y)) (doms x)" by simp
  moreover have "x \<noteq> y \<longrightarrow> revise cw doms' x y = Inr (False, doms')"
    using revise_twice [OF assms] by blast
  ultimately show ?thesis using Some by simp
qed

theorem C7_revise_witness:
  "revise (cross_puzzle [''CAT'', ''CARS'', ''DOGS''])
      (node_consistent_domains (cross_puzzle [''CAT'', ''CARS'', ''DOGS''])) slot_down slot_across
     = Inr (True, (node_consistent_domains (cross_puzzle [''CAT'', ''CARS'', ''DOGS'']))
                    (slot_down := [''CARS''])) \<and>
   overlaps (cross_puzzle [''CAT'', ''CARS'', ''DOGS'']) (slot_down, slot_across) = Some (1, 1) \<and>
   [''CARS''] = filter (supported (1, 1) [''CAT'']) [''CARS'', ''DOGS''] \<and>
   slot_down \<noteq> slot_across \<and>
   revise (cross_puzzle [''CAT'', ''CARS'', ''DOGS''])
      ((node_consistent_domains (cross_puzzle [''CAT'', ''CARS'', ''DOGS'']))
         (slot_down := [''CARS''])) slot_down slot_across
     = Inr (False, (node_consistent_domains (cross_puzzle [''CAT'', ''CARS'', ''DOGS'']))
                     (slot_down := [''CARS''])) \<and>
   overlaps (ladder_puzzle [''EVE'', ''VET'']) (slot_top, slot_bottom) = None \<and>
   revise (ladder_puzzle [''EVE'', ''VET''])
      (node_consistent_domains (ladder_puzzle [''EVE'', ''VET''])) slot_top slot_bottom
     = Inr (False, node_consistent_domains (ladder_puzzle [''EVE'', ''VET'']))"
proof -
  let ?P = "cross_puzzle [''CAT'', ''CARS'', ''DOGS'']"
  let ?D = "node_consistent_domains ?P"
  let ?L = "ladder_puzzle [''EVE'', ''VET'']"
  have ov: "overlaps ?P (slot_down, slot_across) = Some (1, 1)"
    by (simp add: puzzle_defs)
  have ne: "slot_down \<noteq> slot_across" by (simp add: puzzle_defs)
  have dd: "?D slot_down = [''CARS'', ''DOGS'']" "?D slot_across = [''CAT'']"
    by (simp_all add: example_defs)
  have h: "revise ?P ?D slot_down slot_across = Inr (True, ?D(slot_down := [''CARS'']))"
    by (simp add: revise_def char_at_def remove_words_def ov dd)
  have none: "overlaps ?L (slot_top, slot_bottom) = None" by (simp add: puzzle_defs)
  have h2: "revise ?L (node_consistent_domains ?L) slot_top slot_bottom
              = Inr (False, node_consistent_domains ?L)"
    by (simp add: revise_def none)
  note c7 = C7_revise [OF h]
  from c7 ov dd have a: "[''CARS''] = filter (supported (1, 1) [''CAT'']) [''CARS'', ''DOGS'']"
    by simp
  from c7 ne have b: "revise ?P (?D(slot_down := [''CARS''])) slot_down slot_across
       = Inr (False, ?D(slot_down := [''CARS'']))"
    by blast
  from h ov a ne b none h2 show ?thesis by blast
qed

subsection \<open>The worklist loop of \<open>ac3\<close> terminates\<close>

lemma requeue_eq:
  "requeue cw arc al =
     rev (map (Pair (fst arc)) (filter (\<lambda>var. var \<noteq> snd arc) (neighbors cw (fst arc)))) @ al"
proof -
  have "fold (\<lambda>var al. if var \<noteq> y then (x, var) # al else al) ns al
          = rev (map (Pair x) (filter (\<lambda>var. var \<noteq> y) ns)) @ al" for x :: variable and y ns
    by (induction ns arbitrary: al) simp_all
  then show ?thesis by (simp add: requeue_def)
qed

lemma requeue_firsts: "fst ` set (requeue cw arc al) \<subseteq> insert (fst arc) (fst ` set al)"
  by (auto simp: requeue_eq)

lemma arcs_weight_requeue:
  assumes "revise cw doms (fst arc) (snd arc) = Inr (True, doms')"
  shows "arcs_weight doms' (requeue cw arc al) < arcs_weight doms (arc # al)"
proof -
  let ?A = "fst ` set (arc # al)"
  let ?B = "fst ` set (requeue cw arc al)"
  note sh = revise_True_shrinks [OF assms]
  have sub: "?B \<subseteq> ?A" using requeue_firsts [of cw arc al] by auto
  have "(\<Sum>x \<in> ?B. length (doms' x)) \<le> (\<Sum>x \<in> ?A. length (doms' x))"
    by (rule sum_mono2) (use sub in auto)
  also have "\<dots> < (\<Sum>x \<in> ?A. length (doms x))"
    by (rule sum_strict_mono_ex1) (use sh in auto)
  finally show ?thesis by (simp add: arcs_weight_def)
qed

lemma arcs_weight_pop: "arcs_weight doms al \<le> arcs_weight doms (arc # al)"
  unfolding arcs_weight_def by (rule sum_mono2) auto

termination ac3_loop
proof (relation "measures [\<lambda>(cw, doms, al). arcs_weight doms al, \<lambda>(cw, doms, al). length al]")
  show "wf (measures [\<lambda>(cw, doms, al). arcs_weight doms al, \<lambda>(cw, doms, al). length al])"
    by simp
next
  fix cw doms current_arc arc_list x2 x y
  assume "revise cw doms (fst current_arc) (snd current_arc) = Inr x2" "(x, y) = x2" "x = True"
  then have "revise cw doms (fst current_arc) (snd current_arc) = Inr (True, y)" by simp
  from arcs_weight_requeue [OF this]
  show "((cw, y, requeue cw current_arc arc_list), cw, doms, current_arc # arc_list)
          \<in> measures [\<lambda>(cw, doms, al). arcs_weight doms al, \<lambda>(cw, doms, al). length al]"
    by simp
next
  fix cw doms current_arc arc_list x2 x y
  assume "revise cw doms (fst current_arc) (snd current_arc) = Inr x2" "(x, y) = x2" "x \<noteq> True"
  then have "revise cw doms (fst current_arc) (snd current_arc) = Inr (False, y)" by simp
  from revise_False_same [OF this] have "y = doms" .
  with arcs_weight_pop [of doms arc_list current_arc]
  show "((cw, y, arc_list), cw, doms, current_arc # arc_list)
          \<in> measures [\<lambda>(cw, doms, al). arcs_weight doms al, \<lambda>(cw, doms, al). length al]"
    by auto
qed

subsection \<open>Failure of \<open>ac3\<close>\<close>

lemma ac3_loop_False:
  "ac3_loop cw doms arc_list = Inr (False, doms') \<Longrightarrow> \<exists>x \<in> fst ` set arc_list. doms' x = []"
proof (induction cw doms arc_list rule: ac3_loop.induct)
  case (1 cw doms)
  then show ?case by simp
next
  case (2 cw doms current_arc arc_list)
  from "2.prems" obtain revised d1 where
    r: "revise cw doms (fst current_arc) (snd current_arc) = Inr (revised, d1)"
    by (auto split: sum.splits)
  show ?case
  proof (cases revised)
    case False
    with "2.prems" r have "ac3_loop cw d1 arc_list = Inr (False, doms')" by simp
    from "2.IH"(2) [OF r refl _ this] False show ?thesis by auto
  next
    case True
    show ?thesis
    proof (cases "length (d1 (fst current_arc)) = 0")
      case e: True
      with "2.prems" r True have "doms' = d1" by simp
      with e show ?thesis by auto
    next
      case ne: False
      with "2.prems" r True
      have l: "ac3_loop cw d1 (requeue cw current_arc arc_list) = Inr (False, doms')" by simp
      from True have rt: "revised = True" by simp
      from "2.IH"(1) [OF r refl rt ne l] obtain x where
        x: "x \<in> fst ` set (requeue cw current_arc arc_list)" "doms' x = []" by blast
      from x(1) requeue_firsts [of cw current_arc arc_list]
      have "x \<in> fst ` set (current_arc # arc_list)" by auto
      with x(2) show ?thesis by blast
    qed
  qed
qed

text \<open>
  Claim C6. Whatever the initial arc list, when \<open>ac3\<close> returns \<open>False\<close> some variable has an
  empty domain in the domains it leaves: the first variable of one of the initial arcs.
\<close>

theorem C6_ac3_failure_empty_domain:
  assumes "ac3 cw doms arcs = Inr (False, doms')"
  shows "\<exists>x \<in> fst ` set (case arcs of None \<Rightarrow> all_arcs cw | Some arc_list \<Rightarrow> arc_list).
           doms' x = []"
  using assms unfolding ac3_def by (rule ac3_loop_False)

theorem C6_ac3_failure_empty_domain_witness:
  "ac3 (cross_puzzle [''CAT'', ''DOGS''])
       (node_consistent_domains (cross_puzzle [''CAT'', ''DOGS'']))
       (Some [(slot_across, slot_down)])
     = Inr (False, (node_consistent_domains (cross_puzzle [''CAT'', ''DOGS'']))
                     (slot_across := [])) \<and>
   (\<exists>x. x \<in> fst ` set [(slot_across, slot_down)] \<and>
        ((node_consistent_domains (cross_puzzle [''CAT'', ''DOGS'']))(slot_across := [])) x = [])"
proof -
  let ?P = "cross_puzzle [''CAT'', ''DOGS'']"
  let ?D = "node_consistent_domains ?P"
  have ov: "overlaps ?P (slot_across, slot_down) = Some (1, 1)"
    by (simp add: puzzle_defs)
  have dd: "?D slot_down = [''DOGS'']" "?D slot_across = [''CAT'']"
    by (simp_all add: example_defs)
  have h: "ac3 ?P ?D (Some [(slot_across, slot_down)]) = Inr (False, ?D(slot_across := []))"
    by (simp add: ac3_def revise_def char_at_def remove_words_def ov dd)
  from C6_ac3_failure_empty_domain [OF h] have
    "\<exists>x. x \<in> fst ` set [(slot_across, slot_down)] \<and> (?D(slot_across := [])) x = []"
    by (simp add: Bex_def)
  with h show ?thesis by blast
qed

subsection \<open>The loop of \<open>order_domain_values\<close> terminates\<close>

lemma first_min_mem: "first_min best ps \<in> set (best # ps)"
  by (induction ps arbitrary: best) auto

lemma first_max_mem: "first_max best ps \<in> set (best # ps)"
  by (induction ps arbitrary: best) auto

lemma min_entry_mem: "min_entry d = Inr p \<Longrightarrow> p \<in> set d"
  using first_min_mem by (fastforce simp: min_entry_def split: list.splits)

lemma max_entry_mem: "max_entry d = Inr p \<Longrightarrow> p \<in> set d"
  using first_max_mem by (fastforce simp: max_entry_def split: list.splits)

lemma length_delete_less: "p \<in> set d \<Longrightarrow> length (AList.delete (fst p) d) < length d"
proof (induction d)
  case Nil
  then show ?case by simp
next
  case (Cons q d)
  show ?case
  proof (cases "fst q = fst p")
    case True
    then show ?thesis by (cases q) (simp add: AList.delete_eq le_imp_less_Suc)
  next
    case False
    with Cons show ?thesis by (cases q) (auto simp: AList.delete_eq)
  qed
qed

termination order_loop
proof (relation "measure (\<lambda>(ud, od). length ud)")
  show "wf (measure (\<lambda>(ud, od). length ud))" by simp
next
  fix unordered_domain :: "(string \<times> nat) list" and ordered_domain :: "string list"
    and least_const
  assume "min_entry unordered_domain = Inr least_const"
  from length_delete_less [OF min_entry_mem [OF this]]
  show "((AList.delete (fst least_const) unordered_domain, ordered_domain @ [fst least_const]),
          unordered_domain, ordered_domain) \<in> measure (\<lambda>(ud, od). length ud)"
    by simp
qed

subsection \<open>Facts about the example puzzles\<close>

lemma ladder_overlaps_facts:
  "overlaps (ladder_puzzle ws) (slot_top, slot_mid) = Some (1, 0)"
  "overlaps (ladder_puzzle ws) (slot_mid, slot_top) = Some (0, 1)"
  "overlaps (ladder_puzzle ws) (slot_mid, slot_bottom) = Some (2, 1)"
  "overlaps (ladder_puzzle ws) (slot_bottom, slot_mid) = Some (1, 2)"
  "overlaps (ladder_puzzle ws) (slot_top, slot_bottom) = None"
  "overlaps (ladder_puzzle ws) (slot_bottom, slot_top) = None"
  by (simp_all add: puzzle_defs)

lemma ladder_distinct:
  "slot_top \<noteq> slot_mid" "slot_mid \<noteq> slot_top" "slot_top \<noteq> slot_bottom"
  "slot_bottom \<noteq> slot_top" "slot_mid \<noteq> slot_bottom" "slot_bottom \<noteq> slot_mid"
  by (simp_all add: puzzle_defs)

lemma ladder_neighbors:
  "neighbors (ladder_puzzle ws) slot_top = [slot_mid]"
  "neighbors (ladder_puzzle ws) slot_mid = [slot_top, slot_bottom]"
  "neighbors (ladder_puzzle ws) slot_bottom = [slot_mid]"
  by (simp_all add: neighbors_def puzzle_defs)

lemma ladder_variables: "variables (ladder_puzzle ws) = [slot_top, slot_mid, slot_bottom]"
  by (simp add: ladder_puzzle_def)

lemma ladder_all_arcs:
  "all_arcs (ladder_puzzle ws)
     = [(slot_top, slot_mid), (slot_mid, slot_top), (slot_mid, slot_bottom), (slot_bottom, slot_mid)]"
  by (simp add: all_arcs_def ladder_variables ladder_neighbors)

lemma ladder_domains:
  "node_consistent_domains (ladder_puzzle [''EVE'', ''VET'']) slot_top = [''EVE'', ''VET'']"
  "node_consistent_domains (ladder_puzzle [''EVE'', ''VET'']) slot_mid = [''EVE'', ''VET'']"
  "node_consistent_domains (ladder_puzzle [''EVE'', ''VET'']) slot_bottom = [''EVE'', ''VET'']"
  by (simp_all add: example_defs)

subsection \<open>Facts about \<open>min\<close> and \<open>max\<close> on a dict\<close>

lemma first_min_le: "\<forall>q \<in> set (best # ps). snd (first_min best ps) \<le> snd q"
proof (induction ps arbitrary: best)
  case Nil
  then show ?case by simp
next
  case (Cons p ps)
  let ?b = "if snd p < snd best then p else best"
  from Cons.IH [of ?b] have ih: "\<forall>q \<in> set (?b # ps). snd (first_min ?b ps) \<le> snd q" .
  then have "snd (first_min ?b ps) \<le> snd ?b" by simp
  then have "snd (first_min ?b ps) \<le> snd p" "snd (first_min ?b ps) \<le> snd best"
    by (auto split: if_splits)
  with ih show ?case by auto
qed

lemma min_entry_le: "min_entry d = Inr p \<Longrightarrow> q \<in> set d \<Longrightarrow> snd p \<le> snd q"
  using first_min_le by (fastforce simp: min_entry_def split: list.splits)

lemma min_entry_total: "d \<noteq> [] \<Longrightarrow> \<exists>p. min_entry d = Inr p"
  by (cases d) (simp_all add: min_entry_def)

lemma max_entry_total: "d \<noteq> [] \<Longrightarrow> \<exists>p. max_entry d = Inr p"
  by (cases d) (simp_all add: max_entry_def)

lemma length_delete_distinct:
  "distinct (map fst d) \<Longrightarrow> (k, v) \<in> set d \<Longrightarrow> Suc (length (AList.delete k d)) = length d"
proof (induction d)
  case Nil
  then show ?case by simp
next
  case (Cons q d)
  obtain k' v' where q: "q = (k', v')" by (cases q)
  show ?case
  proof (cases "k' = k")
    case True
    from Cons.prems(1) q True have "k \<notin> fst ` set d" by simp
    then have "AList.delete k d = d" by (rule AList.delete_id)
    with True q show ?thesis by (simp add: AList.delete_eq)
  next
    case False
    with Cons.prems q have "(k, v) \<in> set d" by simp
    with Cons.IH Cons.prems(1) have "Suc (length (AList.delete k d)) = length d" by simp
    with False q show ?thesis by (simp add: AList.delete_eq)
  qed
qed

subsection \<open>Facts about \<open>select_unassigned_variable\<close>\<close>

lemma update_nonempty: "AList.update k v al \<noteq> []"
  by (cases al) auto

lemma select_loop_keys:
  "select_loop cw k U md opts = Inr opts' \<Longrightarrow> fst ` set opts' \<subseteq> fst ` set opts \<union> fst ` set U"
proof (induction k arbitrary: U md opts)
  case 0
  then show ?case by simp
next
  case (Suc k)
  from Suc.prems obtain mv mn where me: "min_entry U = Inr (mv, mn)"
    by (auto split: sum.splits)
  from min_entry_mem [OF me] have mem: "mv \<in> fst ` set U" by force
  have del: "fst ` set (AList.delete mv U) \<subseteq> fst ` set U"
    by (auto simp: AList.delete_eq)
  let ?o = "AList.update mv (length (neighbors cw mv)) opts"
  have upd: "fst ` set ?o = insert mv (fst ` set opts)"
    using AList.dom_update [of mv "length (neighbors cw mv)" opts] by simp
  consider (first) "md = - 1" | (same) "md \<noteq> - 1" "md = int mn" | (stop) "md \<noteq> - 1" "md \<noteq> int mn"
    by blast
  then show ?case
  proof cases
    case first
    with Suc.prems me have "select_loop cw k (AList.delete mv U) (int mn) ?o = Inr opts'" by simp
    from Suc.IH [OF this]
    have "fst ` set opts' \<subseteq> insert mv (fst ` set opts) \<union> fst ` set (AList.delete mv U)"
      unfolding upd .
    with del mem show ?thesis by blast
  next
    case same
    with Suc.prems me have "select_loop cw k (AList.delete mv U) md ?o = Inr opts'" by simp
    from Suc.IH [OF this]
    have "fst ` set opts' \<subseteq> insert mv (fst ` set opts) \<union> fst ` set (AList.delete mv U)"
      unfolding upd .
    with del mem show ?thesis by blast
  next
    case stop
    with Suc.prems me have "opts' = opts" by simp
    then show ?thesis by auto
  qed
qed

lemma select_loop_nonempty:
  "select_loop cw k U md opts = Inr opts' \<Longrightarrow> opts \<noteq> [] \<Longrightarrow> opts' \<noteq> []"
proof (induction k arbitrary: U md opts)
  case 0
  then show ?case by simp
next
  case (Suc k)
  from Suc.prems obtain mv mn where me: "min_entry U = Inr (mv, mn)"
    by (auto split: sum.splits)
  let ?o = "AList.update mv (length (neighbors cw mv)) opts"
  consider (first) "md = - 1" | (same) "md \<noteq> - 1" "md = int mn" | (stop) "md \<noteq> - 1" "md \<noteq> int mn"
    by blast
  then show ?case
  proof cases
    case first
    with Suc.prems me have "select_loop cw k (AList.delete mv U) (int mn) ?o = Inr opts'" by simp
    from Suc.IH [OF this update_nonempty] show ?thesis .
  next
    case same
    with Suc.prems me have "select_loop cw k (AList.delete mv U) md ?o = Inr opts'" by simp
    from Suc.IH [OF this update_nonempty] show ?thesis .
  next
    case stop
    with Suc.prems me have "opts' = opts" by simp
    with Suc.prems show ?thesis by simp
  qed
qed

lemma select_loop_total:
  "distinct (map fst U) \<Longrightarrow> k \<le> length U \<Longrightarrow> \<exists>opts'. select_loop cw k U md opts = Inr opts'"
proof (induction k arbitrary: U md opts)
  case 0
  then show ?case by simp
next
  case (Suc k)
  from Suc.prems(2) have "U \<noteq> []" by auto
  from min_entry_total [OF this] obtain mv mn where me: "min_entry U = Inr (mv, mn)" by force
  from length_delete_distinct [OF Suc.prems(1) min_entry_mem [OF me]] Suc.prems(2)
  have len: "k \<le> length (AList.delete mv U)" by simp
  have dist: "distinct (map fst (AList.delete mv U))"
    using Suc.prems(1) by (rule AList.distinct_delete)
  from Suc.IH [OF dist len] me show ?case by simp
qed

lemma select_loop_same_size:
  assumes "select_loop cw k U md opts = Inr opts'"
    and "\<forall>p \<in> set U. snd p = sz (fst p)"
    and "md \<noteq> - 1"
    and "\<forall>v \<in> fst ` set opts. int (sz v) = md"
  shows "\<forall>v \<in> fst ` set opts'. int (sz v) = md"
  using assms
proof (induction k arbitrary: U opts)
  case 0
  then show ?case by simp
next
  case (Suc k)
  from Suc.prems(1) obtain mv mn where me: "min_entry U = Inr (mv, mn)"
    by (auto split: sum.splits)
  from min_entry_mem [OF me] Suc.prems(2) have mn: "mn = sz mv" by force
  let ?o = "AList.update mv (length (neighbors cw mv)) opts"
  have upd: "fst ` set ?o = insert mv (fst ` set opts)"
    using AList.dom_update [of mv "length (neighbors cw mv)" opts] by simp
  have del: "\<forall>p \<in> set (AList.delete mv U). snd p = sz (fst p)"
    using Suc.prems(2) by (auto simp: AList.delete_eq)
  show ?case
  proof (cases "md = int mn")
    case True
    with Suc.prems(1,3) me have l: "select_loop cw k (AList.delete mv U) md ?o = Inr opts'"
      by simp
    have "\<forall>v \<in> fst ` set ?o. int (sz v) = md"
      unfolding upd using Suc.prems(4) True mn by simp
    from Suc.IH [OF l del Suc.prems(3) this] show ?thesis .
  next
    case False
    with Suc.prems(1,3) me have "opts' = opts" by simp
    with Suc.prems(4) show ?thesis by simp
  qed
qed

text \<open>Started as the source starts it, the loop keeps only variables of least domain size.\<close>

lemma select_loop_least:
  assumes "select_loop cw k U (- 1) [] = Inr opts'"
    and "\<forall>p \<in> set U. snd p = sz (fst p)"
  shows "\<forall>v \<in> fst ` set opts'. \<forall>p \<in> set U. sz v \<le> snd p"
proof (cases k)
  case 0
  with assms(1) show ?thesis by simp
next
  case (Suc k')
  from assms(1) Suc obtain mv mn where me: "min_entry U = Inr (mv, mn)"
    by (auto split: sum.splits)
  from min_entry_mem [OF me] assms(2) have mn: "mn = sz mv" by force
  let ?o = "AList.update mv (length (neighbors cw mv)) []"
  from assms(1) Suc me have l: "select_loop cw k' (AList.delete mv U) (int mn) ?o = Inr opts'"
    by simp
  have del: "\<forall>p \<in> set (AList.delete mv U). snd p = sz (fst p)"
    using assms(2) by (auto simp: AList.delete_eq)
  have "\<forall>v \<in> fst ` set ?o. int (sz v) = int mn" using mn by simp
  from select_loop_same_size [OF l del _ this] have "\<forall>v \<in> fst ` set opts'. sz v = mn" by simp
  with min_entry_le [OF me] show ?thesis by fastforce
qed

text \<open>The dict \<open>unassigned_vars\<close> built at the start of \<open>select_unassigned_variable\<close>.\<close>

lemma unassigned_fold:
  fixes a :: assignment and f :: "variable \<Rightarrow> nat"
  assumes "distinct (map fst acc)"
  shows "distinct (map fst (fold (\<lambda>var uv. if map_of a var = None
                                             then AList.update var (f var) uv else uv) vs acc)) \<and>
         map_of (fold (\<lambda>var uv. if map_of a var = None
                                 then AList.update var (f var) uv else uv) vs acc)
           = (\<lambda>v. if v \<in> set vs \<and> map_of a v = None then Some (f v) else map_of acc v)"
  using assms
proof (induction vs arbitrary: acc)
  case Nil
  then show ?case by simp
next
  case (Cons x vs)
  show ?case
  proof (cases "map_of a x = None")
    case True
    have d: "distinct (map fst (AList.update x (f x) acc))"
      using Cons.prems by (rule AList.distinct_update)
    from Cons.IH [OF d] True show ?thesis
      by (auto simp: AList.update_conv' fun_eq_iff)
  next
    case False
    from Cons.IH [OF Cons.prems] False show ?thesis
      by (auto simp: fun_eq_iff)
  qed
qed

lemma unassigned_entries:
  shows "distinct (map fst (unassigned cw doms a))"
    and "p \<in> set (unassigned cw doms a) \<Longrightarrow>
           fst p \<in> set (variables cw) \<and> map_of a (fst p) = None \<and> snd p = length (doms (fst p))"
    and "v \<in> set (variables cw) \<Longrightarrow> map_of a v = None
           \<Longrightarrow> (v, length (doms v)) \<in> set (unassigned cw doms a)"
proof -
  let ?U = "unassigned cw doms a"
  note uf = unassigned_fold [of "[]" a "\<lambda>v. length (doms v)" "variables cw", simplified,
      folded unassigned_def]
  have u: "distinct (map fst ?U)"
    "\<And>v. map_of ?U v = (if v \<in> set (variables cw) \<and> map_of a v = None
                      then Some (length (doms v)) else None)"
    using uf by simp_all
  show "distinct (map fst ?U)" by (rule u(1))
  {
    assume "p \<in> set ?U"
    then have "(fst p, snd p) \<in> set ?U" by simp
    with u(1) have "map_of ?U (fst p) = Some (snd p)" by (rule map_of_is_SomeI)
    with u(2) show "fst p \<in> set (variables cw) \<and> map_of a (fst p) = None \<and>
        snd p = length (doms (fst p))"
      by (auto split: if_splits)
  }
  {
    assume "v \<in> set (variables cw)" "map_of a v = None"
    with u(2) have "map_of ?U v = Some (length (doms v))" by simp
    then show "(v, length (doms v)) \<in> set ?U" by (rule map_of_SomeD)
  }
qed

lemma select_result:
  assumes "select_unassigned_variable cw doms a = Inr var"
  shows "var \<in> set (variables cw)" and "map_of a var = None"
    and "\<And>u. u \<in> set (variables cw) \<Longrightarrow> map_of a u = None
           \<Longrightarrow> length (doms var) \<le> length (doms u)"
proof -
  let ?U = "unassigned cw doms a"
  note ue = unassigned_entries [where cw = cw and doms = doms and a = a]
  from assms obtain opts best where
    sl: "select_loop cw (length ?U) ?U (- 1) [] = Inr opts" and
    mx: "max_entry opts = Inr best" and var: "var = fst best"
    by (auto simp: select_unassigned_variable_def Let_def split: sum.splits)
  from max_entry_mem [OF mx] var have vo: "var \<in> fst ` set opts" by force
  with select_loop_keys [OF sl] obtain p where p: "p \<in> set ?U" "fst p = var" by auto
  from ue(2) [OF p(1)] p(2) show "var \<in> set (variables cw)" "map_of a var = None" by simp_all
  have "\<forall>p \<in> set ?U. snd p = length (doms (fst p))" using ue(2) by blast
  from select_loop_least [OF sl this] vo
  have least: "\<forall>p \<in> set ?U. length (doms var) \<le> snd p" by blast
  fix u assume "u \<in> set (variables cw)" "map_of a u = None"
  from ue(3) [OF this] least show "length (doms var) \<le> length (doms u)" by force
qed

lemma select_total:
  assumes "u \<in> set (variables cw)" and "map_of a u = None"
  shows "\<exists>var. select_unassigned_variable cw doms a = Inr var"
proof -
  let ?U = "unassigned cw doms a"
  note ue = unassigned_entries [where cw = cw and doms = doms and a = a]
  from ue(3) [OF assms] have ne: "?U \<noteq> []" by auto
  from select_loop_total [OF ue(1) le_refl] obtain opts where
    sl: "select_loop cw (length ?U) ?U (- 1) [] = Inr opts" by blast
  from ne obtain k where k: "length ?U = Suc k" by (cases ?U) auto
  from min_entry_total [OF ne] obtain mv mn where me: "min_entry ?U = Inr (mv, mn)" by force
  from sl k me have "select_loop cw k (AList.delete mv ?U) (int mn)
      (AList.update mv (length (neighbors cw mv)) []) = Inr opts" by simp
  from select_loop_nonempty [OF this update_nonempty] have "opts \<noteq> []" .
  from max_entry_total [OF this] obtain best where "max_entry opts = Inr best" by blast
  with sl show ?thesis
    by (simp add: select_unassigned_variable_def Let_def)
qed

subsection \<open>Facts about \<open>order_domain_values\<close>\<close>

lemma init_counter_keys:
  "fst ` set (fold (\<lambda>word ud. AList.update word (0::nat) ud) ws acc) = set ws \<union> fst ` set acc"
proof (induction ws arbitrary: acc)
  case Nil
  then show ?case by simp
next
  case (Cons w ws)
  have "fst ` set (AList.update w (0::nat) acc) = insert w (fst ` set acc)"
    using AList.dom_update [of w "0::nat" acc] by simp
  with Cons.IH [of "AList.update w 0 acc"] show ?case by auto
qed

lemma count_conflicts_total:
  assumes "i < length word" and "\<forall>w' \<in> set nd. j < length w'"
  shows "\<exists>n'. count_conflicts (Some (i, j)) word nd n = Inr n'"
  using assms by (induction nd arbitrary: n) (auto simp: char_at_def)

lemma count_conflicts_Nil: "count_conflicts ov word [] n = Inr n"
  by simp

lemma count_words_keys:
  "count_words ov nd ud = Inr ud' \<Longrightarrow> map fst ud' = map fst ud"
proof (induction ud arbitrary: ud')
  case Nil
  then show ?case by simp
next
  case (Cons p ud)
  obtain w n where p: "p = (w, n)" by (cases p)
  from Cons.prems p obtain n' rest' where
    "count_words ov nd ud = Inr rest'" "ud' = (w, n') # rest'"
    by (auto split: sum.splits)
  with Cons.IH p show ?case by simp
qed

lemma count_words_total:
  assumes "\<forall>w \<in> fst ` set ud. i < length w" and "\<forall>w' \<in> set nd. j < length w'"
  shows "\<exists>ud'. count_words (Some (i, j)) nd ud = Inr ud'"
  using assms(1)
proof (induction ud)
  case Nil
  then show ?case by simp
next
  case (Cons p ud)
  obtain w n where p: "p = (w, n)" by (cases p)
  with Cons.prems have "i < length w" by simp
  from count_conflicts_total [OF this assms(2)] obtain n' where
    "count_conflicts (Some (i, j)) w nd n = Inr n'" by blast
  moreover from Cons have "\<exists>ud'. count_words (Some (i, j)) nd ud = Inr ud'" by simp
  ultimately show ?case using p by auto
qed

lemma count_neighbours_keys:
  "count_neighbours cw doms a var nbs ud = Inr ud' \<Longrightarrow> map fst ud' = map fst ud"
proof (induction nbs arbitrary: ud)
  case Nil
  then show ?case by simp
next
  case (Cons nb nbs)
  show ?case
  proof (cases "map_of a nb = None")
    case True
    with Cons.prems obtain counted where
      c: "count_words (overlaps cw (var, nb)) (doms nb) ud = Inr counted" and
      r: "count_neighbours cw doms a var nbs counted = Inr ud'"
      by (auto split: sum.splits)
    from Cons.IH [OF r] count_words_keys [OF c] show ?thesis by simp
  next
    case False
    with Cons.prems have "count_neighbours cw doms a var nbs ud = Inr ud'" by simp
    from Cons.IH [OF this] show ?thesis .
  qed
qed

lemma count_neighbours_empty: "count_neighbours cw doms a var nbs [] = Inr []"
  by (induction nbs) simp_all

lemma count_neighbours_total:
  assumes "\<forall>nb \<in> set nbs. \<exists>i j. overlaps cw (var, nb) = Some (i, j) \<and>
             (\<forall>w \<in> fst ` set ud. i < length w) \<and> (\<forall>w' \<in> set (doms nb). j < length w')"
  shows "\<exists>ud'. count_neighbours cw doms a var nbs ud = Inr ud'"
  using assms
proof (induction nbs arbitrary: ud)
  case Nil
  then show ?case by simp
next
  case (Cons nb nbs)
  from Cons.prems obtain i j where ov: "overlaps cw (var, nb) = Some (i, j)" and
    wi: "\<forall>w \<in> fst ` set ud. i < length w" and wj: "\<forall>w' \<in> set (doms nb). j < length w'"
    by auto
  from count_words_total [OF wi wj] obtain counted where
    c: "count_words (Some (i, j)) (doms nb) ud = Inr counted" by blast
  from count_words_keys [OF c] have k: "fst ` set counted = fst ` set ud"
    by (metis list.set_map)
  have ih1: "\<exists>ud'. count_neighbours cw doms a var nbs counted = Inr ud'"
    by (rule Cons.IH) (use Cons.prems k in auto)
  have ih2: "\<exists>ud'. count_neighbours cw doms a var nbs ud = Inr ud'"
    by (rule Cons.IH) (use Cons.prems in auto)
  from ih1 ih2 c ov show ?case by auto
qed

lemma order_loop_total: "\<exists>ws. order_loop ud od = Inr ws"
proof (induction ud od rule: order_loop.induct)
  case (1 ud od)
  show ?case
  proof (cases "length ud \<noteq> 0")
    case True
    then have "ud \<noteq> []" by simp
    from min_entry_total [OF this] obtain lc where lc: "min_entry ud = Inr lc" by blast
    from "1.IH" [OF True lc] lc True show ?thesis
      by (subst order_loop.simps) simp
  next
    case False
    then show ?thesis by (subst order_loop.simps) simp
  qed
qed

lemma order_loop_subset: "order_loop ud od = Inr ws \<Longrightarrow> set ws \<subseteq> set od \<union> fst ` set ud"
proof (induction ud od rule: order_loop.induct)
  case (1 ud od)
  show ?case
  proof (cases "length ud \<noteq> 0")
    case True
    with "1.prems" obtain lc where lc: "min_entry ud = Inr lc" and
      r: "order_loop (AList.delete (fst lc) ud) (od @ [fst lc]) = Inr ws"
      by (subst (asm) order_loop.simps) (auto split: sum.splits)
    from min_entry_mem [OF lc] have "fst lc \<in> fst ` set ud" by simp
    moreover have "fst ` set (AList.delete (fst lc) ud) \<subseteq> fst ` set ud"
      by (auto simp: AList.delete_eq)
    moreover from "1.IH" [OF True lc r]
    have "set ws \<subseteq> insert (fst lc) (set od) \<union> fst ` set (AList.delete (fst lc) ud)"
      by simp
    ultimately show ?thesis by blast
  next
    case False
    with "1.prems" have "ws = od" by (subst (asm) order_loop.simps) simp
    then show ?thesis by simp
  qed
qed

lemma order_domain_values_subset:
  assumes "order_domain_values cw doms var a = Inr ws"
  shows "set ws \<subseteq> set (doms var)"
proof -
  let ?ud0 = "fold (\<lambda>word ud. AList.update word (0::nat) ud) (doms var) []"
  from assms obtain counted where
    c: "count_neighbours cw doms a var (neighbors cw var) ?ud0 = Inr counted" and
    o: "order_loop counted [] = Inr ws"
    by (auto simp: order_domain_values_def Let_def split: sum.splits)
  from count_neighbours_keys [OF c] have "fst ` set counted = fst ` set ?ud0"
    by (metis list.set_map)
  with init_counter_keys [of "doms var" "[]"] order_loop_subset [OF o] show ?thesis by simp
qed

lemma order_domain_values_empty:
  "doms var = [] \<Longrightarrow> order_domain_values cw doms var a = Inr []"
  by (simp add: order_domain_values_def count_neighbours_empty)

lemma order_domain_values_total:
  assumes "\<forall>nb \<in> set (neighbors cw var). \<exists>i j. overlaps cw (var, nb) = Some (i, j) \<and>
             (\<forall>w \<in> set (doms var). i < length w) \<and> (\<forall>w' \<in> set (doms nb). j < length w')"
  shows "\<exists>ws. order_domain_values cw doms var a = Inr ws"
proof -
  let ?ud0 = "fold (\<lambda>word ud. AList.update word (0::nat) ud) (doms var) []"
  have "fst ` set ?ud0 = set (doms var)" using init_counter_keys [of "doms var" "[]"] by simp
  with assms have "\<exists>ud'. count_neighbours cw doms a var (neighbors cw var) ?ud0 = Inr ud'"
    by (intro count_neighbours_total) simp
  then obtain counted where
    "count_neighbours cw doms a var (neighbors cw var) ?ud0 = Inr counted" by blast
  with order_loop_total [of counted "[]"] show ?thesis
    by (auto simp: order_domain_values_def Let_def)
qed

subsection \<open>Facts about \<open>consistent\<close>\<close>

lemma consistent_neighbours_True:
  assumes "consistent_neighbours cw a var word nbs = Inr True"
  shows "list_all (neighbour_agrees cw a var word) nbs"
  using assms
proof (induction nbs)
  case Nil
  then show ?case by simp
next
  case (Cons nb nbs)
  show ?case
  proof (cases "map_of a nb")
    case None
    with Cons show ?thesis by (simp add: neighbour_agrees_def)
  next
    case (Some w')
    with Cons.prems obtain ov c c' where
      ov: "overlaps cw (var, nb) = Some ov" and
      c: "char_at word (fst ov) = Inr c" and c': "char_at w' (snd ov) = Inr c'" and
      eq: "c = c'" and rest: "consistent_neighbours cw a var word nbs = Inr True"
      by (auto split: option.splits sum.splits if_splits)
    from c c' eq have "matches ov word w'"
      by (auto simp: matches_def char_at_def split: if_splits)
    with Cons.IH [OF rest] Some ov show ?thesis by (simp add: neighbour_agrees_def)
  qed
qed

lemma consistent_loop_True:
  assumes "consistent_loop cw a entries used = Inr True"
  shows "distinct (map snd entries) \<and> set used \<inter> snd ` set entries = {} \<and>
         lengths_fit entries \<and>
         list_all (\<lambda>p. list_all (neighbour_agrees cw a (fst p) (snd p)) (neighbors cw (fst p))) entries"
  using assms
proof (induction entries arbitrary: used)
  case Nil
  then show ?case by (simp add: lengths_fit_def)
next
  case (Cons p entries)
  obtain var word where p: "p = (var, word)" by (cases p)
  from Cons.prems p have nu: "word \<notin> set used" and len: "var_length var = length word"
    by (auto split: if_splits)
  with Cons.prems p have
    nb: "consistent_neighbours cw a var word (neighbors cw var) = Inr True" and
    rest: "consistent_loop cw a entries (used @ [word]) = Inr True"
    by (auto split: sum.splits if_splits)
  from Cons.IH [OF rest] have ih:
    "distinct (map snd entries)" "set (used @ [word]) \<inter> snd ` set entries = {}"
    "lengths_fit entries"
    "list_all (\<lambda>p. list_all (neighbour_agrees cw a (fst p) (snd p)) (neighbors cw (fst p))) entries"
    by simp_all
  from ih(2) have w: "word \<notin> snd ` set entries" "set used \<inter> snd ` set entries = {}" by auto
  from ih(1) w(1) p have "distinct (map snd (p # entries))" by simp
  moreover from w nu p have "set used \<inter> snd ` set (p # entries) = {}" by simp
  moreover from ih(3) len p have "lengths_fit (p # entries)" by (simp add: lengths_fit_def)
  moreover note consistent_neighbours_True [OF nb] ih(4)
  ultimately show ?case using p by simp
qed

lemma consistent_sound: "consistent cw a = Inr True \<Longrightarrow> consistent_assignment cw a"
  using consistent_loop_True [of cw a a "[]"]
  by (simp add: consistent_def consistent_assignment_def words_unique_def overlaps_agree_def)

lemma consistent_neighbours_total:
  assumes "\<forall>nb \<in> set nbs. \<forall>w'. map_of a nb = Some w' \<longrightarrow>
             (\<exists>i j. overlaps cw (var, nb) = Some (i, j) \<and> i < length word \<and> j < length w')"
  shows "\<exists>b. consistent_neighbours cw a var word nbs = Inr b"
  using assms
proof (induction nbs)
  case Nil
  then show ?case by auto
next
  case (Cons nb nbs)
  then have ih: "\<exists>b. consistent_neighbours cw a var word nbs = Inr b" by simp
  show ?case
  proof (cases "map_of a nb")
    case None
    with ih show ?thesis by simp
  next
    case (Some w')
    with Cons.prems obtain i j where
      "overlaps cw (var, nb) = Some (i, j)" "i < length word" "j < length w'" by auto
    with Some ih show ?thesis by (auto simp: char_at_def)
  qed
qed

lemma consistent_loop_total:
  assumes "\<forall>p \<in> set entries. var_length (fst p) = length (snd p) \<longrightarrow>
             (\<forall>nb \<in> set (neighbors cw (fst p)). \<forall>w'. map_of a nb = Some w' \<longrightarrow>
                (\<exists>i j. overlaps cw (fst p, nb) = Some (i, j) \<and> i < length (snd p) \<and>
                       j < length w'))"
  shows "\<exists>b. consistent_loop cw a entries used = Inr b"
  using assms
proof (induction entries arbitrary: used)
  case Nil
  then show ?case by auto
next
  case (Cons p entries)
  obtain var word where p: "p = (var, word)" by (cases p)
  from Cons have ih: "\<And>used. \<exists>b. consistent_loop cw a entries used = Inr b" by simp
  show ?case
  proof (cases "word \<in> set used \<or> var_length var \<noteq> length word")
    case True
    with p show ?thesis by auto
  next
    case False
    with Cons.prems p have "\<forall>nb \<in> set (neighbors cw var). \<forall>w'. map_of a nb = Some w' \<longrightarrow>
        (\<exists>i j. overlaps cw (var, nb) = Some (i, j) \<and> i < length word \<and> j < length w')"
      by simp
    from consistent_neighbours_total [OF this] obtain b where
      "consistent_neighbours cw a var word (neighbors cw var) = Inr b" by blast
    with False p ih [of "used @ [word]"] show ?thesis by (cases b) auto
  qed
qed

subsection \<open>The search leaves the domains alone\<close>

lemma backtrack_frame:
  "backtrack n cw doms a = Inr (r, d') \<Longrightarrow> d' = doms"
  "try_words n cw doms a var ws = Inr (r, d') \<Longrightarrow> d' = doms"
proof (induction n cw doms a and n cw doms a var ws arbitrary: r d' and r d'
       rule: backtrack_try_words.induct)
  case (1 cw doms assignment)
  then show ?case by simp
next
  case (2 depth cw doms assignment)
  then show ?case by (auto split: if_splits sum.splits)
next
  case (3 depth cw doms assignment var)
  then show ?case by simp
next
  case (4 depth cw doms assignment var domain_word rest)
  let ?as = "AList.update var domain_word assignment"
  from "4.prems" obtain ok where ok: "consistent cw ?as = Inr ok"
    by (auto simp: Let_def split: sum.splits)
  show ?case
  proof (cases ok)
    case False
    with "4.prems" ok have "try_words depth cw doms (AList.delete var ?as) var rest = Inr (r, d')"
      by (simp add: Let_def)
    from "4.IH"(1) [OF refl ok _ this] False show ?thesis by simp
  next
    case True
    with "4.prems" ok obtain tb d1 where bt: "backtrack depth cw doms ?as = Inr (tb, d1)"
      by (auto simp: Let_def split: sum.splits)
    from True have nf: "ok \<noteq> False" by simp
    from "4.IH"(2) [OF refl ok nf bt] have d1: "d1 = doms" .
    show ?thesis
    proof (cases "tb = None")
      case False
      with "4.prems" ok True bt d1 show ?thesis by (simp add: Let_def)
    next
      case tbn: True
      with "4.prems" ok True bt
      have "try_words depth cw d1 (AList.delete var ?as) var rest = Inr (r, d')"
        by (simp add: Let_def)
      from "4.IH"(3) [OF refl ok nf bt refl _ this] tbn d1 show ?thesis by simp
    qed
  qed
qed

text \<open>
  \<open>assignment[var] = word\<close> for a variable that is not assigned puts the entry last, and
  \<open>assignment.pop(var)\<close> gives the old dict back.
\<close>

lemma update_unassigned: "map_of a var = None \<Longrightarrow> AList.update var w a = a @ [(var, w)]"
proof (induction a)
  case Nil
  then show ?case by simp
next
  case (Cons p a)
  then show ?case by (cases p) (auto split: if_splits)
qed

lemma pop_restores:
  assumes "map_of a var = None"
  shows "AList.delete var (AList.update var w a) = a"
proof -
  from assms have "var \<notin> fst ` set a" by (simp add: map_of_eq_None_iff)
  then have "AList.delete var a = a" by (rule AList.delete_id)
  then show ?thesis by (simp add: AList.delete_update_same)
qed

text \<open>One round of the loop over the words, with the domains and the assignment restored.\<close>

lemma try_words_step:
  assumes "map_of a var = None"
  shows "try_words n cw doms a var (w # rest) =
     (case consistent cw (a @ [(var, w)]) of
        Inl e \<Rightarrow> Inl e
      | Inr ok \<Rightarrow>
          if \<not> ok then try_words n cw doms a var rest
          else
            (case backtrack n cw doms (a @ [(var, w)]) of
               Inl e \<Rightarrow> Inl e
             | Inr (res, d') \<Rightarrow>
                 if res \<noteq> None then Inr (res, doms) else try_words n cw doms a var rest))"
proof -
  have "backtrack n cw doms (a @ [(var, w)]) = Inr (res, d') \<Longrightarrow> d' = doms" for res d'
    by (rule backtrack_frame(1))
  moreover have "AList.delete var (a @ [(var, w)]) = a"
    using pop_restores [OF assms, of w] by (simp add: update_unassigned [OF assms])
  ultimately show ?thesis
    by (auto simp: Let_def update_unassigned [OF assms] split: sum.splits)
qed

subsection \<open>What the search returns\<close>

lemma partial_assignment_extend:
  assumes "partial_assignment cw doms a" and "var \<in> set (variables cw)"
    and "map_of a var = None" and "w \<in> set (doms var)"
  shows "partial_assignment cw doms (a @ [(var, w)])"
proof -
  from assms(3) have "var \<notin> fst ` set a" by (simp add: map_of_eq_None_iff)
  with assms show ?thesis by (simp add: partial_assignment_def)
qed

lemma try_words_result:
  assumes bt: "\<And>a r d'. backtrack n cw doms a = Inr (Some r, d') \<Longrightarrow>
                 partial_assignment cw doms a \<Longrightarrow>
                 partial_assignment cw doms r \<and> length r = length (variables cw) \<and>
                 (r = a \<or> consistent cw r = Inr True)"
    and pa: "partial_assignment cw doms a"
    and var: "var \<in> set (variables cw)" "map_of a var = None"
  shows "try_words n cw doms a var ws = Inr (Some r, d') \<Longrightarrow> set ws \<subseteq> set (doms var) \<Longrightarrow>
           partial_assignment cw doms r \<and> length r = length (variables cw) \<and>
           consistent cw r = Inr True"
proof (induction ws)
  case Nil
  then show ?case by simp
next
  case (Cons w ws)
  let ?as = "a @ [(var, w)]"
  note step = try_words_step [OF var(2), of n cw doms w ws]
  from Cons.prems(2) have w: "w \<in> set (doms var)" and ws: "set ws \<subseteq> set (doms var)" by simp_all
  from Cons.prems(1) obtain ok where ok: "consistent cw ?as = Inr ok"
    unfolding step by (auto split: sum.splits)
  show ?case
  proof (cases ok)
    case False
    with Cons.prems(1) ok have "try_words n cw doms a var ws = Inr (Some r, d')"
      unfolding step by simp
    from Cons.IH [OF this ws] show ?thesis .
  next
    case True
    with Cons.prems(1) ok obtain res d1 where b: "backtrack n cw doms ?as = Inr (res, d1)"
      unfolding step by (auto split: sum.splits)
    show ?thesis
    proof (cases res)
      case None
      with Cons.prems(1) ok True b have "try_words n cw doms a var ws = Inr (Some r, d')"
        unfolding step by simp
      from Cons.IH [OF this ws] show ?thesis .
    next
      case (Some r')
      with Cons.prems(1) ok True b have "r' = r" unfolding step by simp
      with b Some have b': "backtrack n cw doms ?as = Inr (Some r, d1)" by simp
      from bt [OF b' partial_assignment_extend [OF pa var w]] ok True show ?thesis by auto
    qed
  qed
qed

lemma backtrack_result:
  "backtrack n cw doms a = Inr (Some r, d') \<Longrightarrow> partial_assignment cw doms a \<Longrightarrow>
     partial_assignment cw doms r \<and> length r = length (variables cw) \<and>
     (r = a \<or> consistent cw r = Inr True)"
proof (induction n arbitrary: a r d')
  case 0
  then show ?case by simp
next
  case (Suc n)
  show ?case
  proof (cases "length a = length (variables cw)")
    case True
    with Suc.prems show ?thesis by simp
  next
    case False
    with Suc.prems(1) obtain var ordered where
      sel: "select_unassigned_variable cw doms a = Inr var" and
      ord: "order_domain_values cw doms var a = Inr ordered" and
      tw: "try_words n cw doms a var ordered = Inr (Some r, d')"
      by (auto split: sum.splits)
    from try_words_result [OF Suc.IH Suc.prems(2) select_result(1,2) [OF sel] tw
        order_domain_values_subset [OF ord]]
    show ?thesis by simp
  qed
qed

text \<open>A dict with as many keys as there are variables, all of them variables, has them all.\<close>

lemma full_assignment_covers:
  assumes "distinct (variables cw)" and "partial_assignment cw doms r"
    and "length r = length (variables cw)"
  shows "covers_all_variables cw r"
proof -
  from assms(2) have d: "distinct (map fst r)" and sub: "fst ` set r \<subseteq> set (variables cw)"
    by (auto simp: partial_assignment_def list_all_iff)
  from d have "card (fst ` set r) = length r" using distinct_card [of "map fst r"] by simp
  moreover from assms(1) have "card (set (variables cw)) = length (variables cw)"
    by (rule distinct_card)
  ultimately have "card (fst ` set r) = card (set (variables cw))" using assms(3) by simp
  with sub have "fst ` set r = set (variables cw)" by (intro card_subset_eq) simp_all
  then show ?thesis
    by (auto simp: covers_all_variables_def list_all_iff map_of_eq_None_iff)
qed

text \<open>
  Claim C1. An assignment that \<open>backtrack\<close> returns, started from the empty assignment, is
  complete (every variable of the puzzle has a word) and consistent (no word twice, every
  word as long as its variable, neighbouring variables agree at their overlap); its words
  come from the domains.
\<close>

theorem C1_backtrack_result_complete_consistent:
  assumes "distinct (variables cw)"
    and "backtrack depth cw doms [] = Inr (Some result, doms')"
  shows "covers_all_variables cw result \<and> consistent_assignment cw result \<and>
         partial_assignment cw doms result"
proof -
  have pa: "partial_assignment cw doms []" by (simp add: partial_assignment_def)
  from backtrack_result [OF assms(2) pa] have
    r: "partial_assignment cw doms result" "length result = length (variables cw)"
       "result = [] \<or> consistent cw result = Inr True" by simp_all
  have "consistent cw [] = Inr True" by (simp add: consistent_def)
  with r(3) have "consistent cw result = Inr True" by auto
  from consistent_sound [OF this] full_assignment_covers [OF assms(1) r(1,2)] r(1)
  show ?thesis by simp
qed

theorem C1_backtrack_result_complete_consistent_witness:
  "distinct (variables (cross_puzzle [''CAT'', ''CARS'', ''DOGS''])) \<and>
   map_sum id fst
     (backtrack 3 (cross_puzzle [''CAT'', ''CARS'', ''DOGS''])
        (node_consistent_domains (cross_puzzle [''CAT'', ''CARS'', ''DOGS''])) [])
     = Inr (Some [(slot_across, ''CAT''), (slot_down, ''CARS'')]) \<and>
   covers_all_variables (cross_puzzle [''CAT'', ''CARS'', ''DOGS''])
     [(slot_across, ''CAT''), (slot_down, ''CARS'')] \<and>
   consistent_assignment (cross_puzzle [''CAT'', ''CARS'', ''DOGS''])
     [(slot_across, ''CAT''), (slot_down, ''CARS'')] \<and>
   partial_assignment (cross_puzzle [''CAT'', ''CARS'', ''DOGS''])
     (node_consistent_domains (cross_puzzle [''CAT'', ''CARS'', ''DOGS'']))
     [(slot_across, ''CAT''), (slot_down, ''CARS'')]"
proof -
  let ?P = "cross_puzzle [''CAT'', ''CARS'', ''DOGS'']"
  let ?D = "node_consistent_domains ?P"
  let ?R = "[(slot_across, ''CAT''), (slot_down, ''CARS'')]"
  have d: "distinct (variables ?P)" by (simp add: puzzle_defs)
  have e: "map_sum id fst (backtrack 3 ?P ?D []) = Inr (Some ?R)" by code_simp
  then obtain d' where b: "backtrack 3 ?P ?D [] = Inr (Some ?R, d')"
    by (cases "backtrack 3 ?P ?D []") auto
  from C1_backtrack_result_complete_consistent [OF d b] d e show ?thesis by blast
qed

subsection \<open>The arcs that \<open>ac3\<close> puts back\<close>

text \<open>
  Claim C2, evaluated on the three-slot puzzle with the words EVE and VET. \<open>ac3\<close>, started
  with all arcs, returns \<open>True\<close>; the domain of the top slot still holds EVE, whose second
  letter V is the first letter of no word left in the domain of the middle slot. The arc
  \<open>(top, mid)\<close> is not consistent although \<open>ac3\<close> reported success.
\<close>

theorem C2_ac3_not_arc_consistent:
  "\<exists>doms'. ac3 (ladder_puzzle [''EVE'', ''VET''])
             (node_consistent_domains (ladder_puzzle [''EVE'', ''VET''])) None = Inr (True, doms') \<and>
     overlaps (ladder_puzzle [''EVE'', ''VET'']) (slot_top, slot_mid) = Some (1, 0) \<and>
     doms' slot_top = [''EVE'', ''VET''] \<and> doms' slot_mid = [''EVE''] \<and>
     \<not> supported (1, 0) (doms' slot_mid) ''EVE''"
proof -
  let ?L = "ladder_puzzle [''EVE'', ''VET'']"
  let ?D = "node_consistent_domains ?L"
  have "ac3 ?L ?D None
          = Inr (True, ?D(slot_top := [''EVE'', ''VET''], slot_mid := [''EVE''],
                          slot_bottom := [''VET'']))"
    by (simp add: ac3_def ladder_all_arcs revise_def ladder_overlaps_facts ladder_domains
        ladder_distinct char_at_def remove_words_def requeue_def ladder_neighbors)
  moreover have "\<not> supported (1, 0) [''EVE''] ''EVE''"
    by (simp add: supported_def matches_def)
  ultimately show ?thesis
    by (simp add: ladder_overlaps_facts ladder_domains ladder_distinct)
qed

text \<open>
  Claim C5, evaluated at the same puzzle. The arc \<open>(mid, bottom)\<close> is popped, \<open>revise\<close>
  removes VET from the domain of the middle slot, which stays non-empty, and the arc put
  back is \<open>(mid, top)\<close>: the revised variable first, its neighbour second. The arc
  \<open>(top, mid)\<close> that the claim names is not put back.
\<close>

theorem C5_requeue_direction:
  "revise (ladder_puzzle [''EVE'', ''VET''])
      (node_consistent_domains (ladder_puzzle [''EVE'', ''VET''])) slot_mid slot_bottom
     = Inr (True, (node_consistent_domains (ladder_puzzle [''EVE'', ''VET'']))
                    (slot_mid := [''EVE''])) \<and>
   requeue (ladder_puzzle [''EVE'', ''VET'']) (slot_mid, slot_bottom) [(slot_bottom, slot_mid)]
     = [(slot_mid, slot_top), (slot_bottom, slot_mid)] \<and>
   ac3_loop (ladder_puzzle [''EVE'', ''VET''])
      (node_consistent_domains (ladder_puzzle [''EVE'', ''VET'']))
      [(slot_mid, slot_bottom), (slot_bottom, slot_mid)]
     = ac3_loop (ladder_puzzle [''EVE'', ''VET''])
         ((node_consistent_domains (ladder_puzzle [''EVE'', ''VET'']))(slot_mid := [''EVE'']))
         [(slot_mid, slot_top), (slot_bottom, slot_mid)]"
proof -
  let ?L = "ladder_puzzle [''EVE'', ''VET'']"
  let ?D = "node_consistent_domains ?L"
  have r: "revise ?L ?D slot_mid slot_bottom = Inr (True, ?D(slot_mid := [''EVE'']))"
    by (simp add: revise_def ladder_overlaps_facts ladder_domains char_at_def remove_words_def)
  have q: "requeue ?L (slot_mid, slot_bottom) [(slot_bottom, slot_mid)]
             = [(slot_mid, slot_top), (slot_bottom, slot_mid)]"
    by (simp add: requeue_def ladder_neighbors ladder_distinct)
  have "ac3_loop ?L ?D [(slot_mid, slot_bottom), (slot_bottom, slot_mid)]
          = ac3_loop ?L (?D(slot_mid := [''EVE''])) [(slot_mid, slot_top), (slot_bottom, slot_mid)]"
    by (subst ac3_loop.simps) (simp add: r q)
  with r q show ?thesis by blast
qed

text \<open>What \<open>requeue\<close> adds in general: arcs from the revised variable to its other neighbours.\<close>

lemma requeue_arcs:
  "set (requeue cw (x, y) arc_list)
     = {(x, z) | z. z \<in> set (neighbors cw x) \<and> z \<noteq> y} \<union> set arc_list"
  by (auto simp: requeue_eq)

subsection \<open>The search raises nothing\<close>

lemma wf_neighbour:
  assumes "wf_crossword cw" and "x \<in> set (variables cw)" and "nb \<in> set (neighbors cw x)"
  shows "nb \<in> set (variables cw) \<and>
         (\<exists>i j. overlaps cw (x, nb) = Some (i, j) \<and> i < var_length x \<and> j < var_length nb)"
proof -
  from assms(3) have nb: "nb \<in> set (variables cw)" "nb \<noteq> x" and
    ov: "overlaps cw (nb, x) \<noteq> None"
    by (auto simp: neighbors_def)
  from ov obtain ov' where ov': "overlaps cw (nb, x) = Some ov'" by auto
  from assms(1,2) nb(1) have "x = nb \<or>
      (case overlaps cw (nb, x) of
         None \<Rightarrow> True
       | Some ov \<Rightarrow> overlaps cw (x, nb) = Some (snd ov, fst ov) \<and>
                     snd ov < var_length x \<and> fst ov < var_length nb)"
    by (simp add: wf_crossword_def list_all_iff)
  with nb ov' show ?thesis by auto
qed

lemma node_consistent_length:
  "node_consistent cw doms \<Longrightarrow> v \<in> set (variables cw) \<Longrightarrow> w \<in> set (doms v)
     \<Longrightarrow> length w = var_length v"
  by (simp add: node_consistent_def list_all_iff)

lemma partial_assignment_entry:
  assumes "partial_assignment cw doms a" and "map_of a v = Some w"
  shows "v \<in> set (variables cw)" and "w \<in> set (doms v)"
proof -
  from assms(2) have "(v, w) \<in> set a" by (rule map_of_SomeD)
  with assms(1) show "v \<in> set (variables cw)" "w \<in> set (doms v)"
    by (auto simp: partial_assignment_def list_all_iff)
qed

lemma consistent_total:
  assumes wf: "wf_crossword cw" and nc: "node_consistent cw doms"
    and pa: "partial_assignment cw doms a"
  shows "\<exists>b. consistent cw a = Inr b"
  unfolding consistent_def
proof (rule consistent_loop_total, intro ballI impI allI)
  fix p nb w'
  assume p: "p \<in> set a" and len: "var_length (fst p) = length (snd p)"
    and nb: "nb \<in> set (neighbors cw (fst p))" and w': "map_of a nb = Some w'"
  from pa p have pv: "fst p \<in> set (variables cw)"
    by (auto simp: partial_assignment_def list_all_iff)
  from wf_neighbour [OF wf pv nb] obtain i j where
    ij: "overlaps cw (fst p, nb) = Some (i, j)" "i < var_length (fst p)" "j < var_length nb"
    by blast
  from partial_assignment_entry [OF pa w'] node_consistent_length [OF nc]
  have "length w' = var_length nb" by blast
  with ij len show "\<exists>i j. overlaps cw (fst p, nb) = Some (i, j) \<and> i < length (snd p) \<and>
      j < length w'" by simp
qed

lemma order_domain_values_wf_total:
  assumes wf: "wf_crossword cw" and nc: "node_consistent cw doms"
    and var: "var \<in> set (variables cw)"
  shows "\<exists>ws. order_domain_values cw doms var a = Inr ws"
proof (rule order_domain_values_total, intro ballI)
  fix nb assume nb: "nb \<in> set (neighbors cw var)"
  from wf_neighbour [OF wf var nb] obtain i j where
    nbv: "nb \<in> set (variables cw)" and
    ij: "overlaps cw (var, nb) = Some (i, j)" "i < var_length var" "j < var_length nb"
    by blast
  from ij(2) node_consistent_length [OF nc var]
  have "\<forall>w \<in> set (doms var). i < length w" by simp
  moreover from ij(3) node_consistent_length [OF nc nbv]
  have "\<forall>w' \<in> set (doms nb). j < length w'" by simp
  ultimately show "\<exists>i j. overlaps cw (var, nb) = Some (i, j) \<and>
      (\<forall>w \<in> set (doms var). i < length w) \<and> (\<forall>w' \<in> set (doms nb). j < length w')"
    using ij(1) by blast
qed

lemma partial_assignment_length:
  assumes "partial_assignment cw doms a"
  shows "length a = card (fst ` set a)" and "fst ` set a \<subseteq> set (variables cw)"
proof -
  from assms have d: "distinct (map fst a)" by (simp add: partial_assignment_def)
  from distinct_card [OF d] show "length a = card (fst ` set a)" by simp
  from assms show "fst ` set a \<subseteq> set (variables cw)"
    by (auto simp: partial_assignment_def list_all_iff)
qed

text \<open>A dict over the variables with another number of keys leaves a variable unassigned.\<close>

lemma unassigned_exists:
  assumes "distinct (variables cw)" and "distinct (map fst a)"
    and "fst ` set a \<subseteq> set (variables cw)" and "length a \<noteq> length (variables cw)"
  shows "\<exists>u \<in> set (variables cw). map_of a u = None"
proof (rule ccontr)
  assume "\<not> (\<exists>u \<in> set (variables cw). map_of a u = None)"
  then have "set (variables cw) \<subseteq> fst ` set a" by (auto simp: map_of_eq_None_iff)
  with assms(3) have "fst ` set a = set (variables cw)" by auto
  moreover have "length a = card (fst ` set a)" using distinct_card [OF assms(2)] by simp
  moreover have "card (set (variables cw)) = length (variables cw)"
    using assms(1) by (rule distinct_card)
  ultimately show False using assms(4) by simp
qed

text \<open>A dict over the variables that misses one of them is not complete.\<close>

lemma unassigned_incomplete:
  assumes "v \<in> set (variables cw)" and "map_of a v = None"
    and "distinct (map fst a)" and "fst ` set a \<subseteq> set (variables cw)"
  shows "length a < length (variables cw)"
proof -
  from assms(2) have "v \<notin> fst ` set a" by (simp add: map_of_eq_None_iff)
  with assms(1,4) have "fst ` set a \<subset> set (variables cw)" by auto
  then have "card (fst ` set a) < card (set (variables cw))"
    by (intro psubset_card_mono) simp_all
  moreover have "length a = card (fst ` set a)" using distinct_card [OF assms(3)] by simp
  moreover have "card (set (variables cw)) \<le> length (variables cw)" by (rule card_length)
  ultimately show ?thesis by simp
qed

lemma try_words_total:
  assumes wf: "wf_crossword cw" and nc: "node_consistent cw doms"
    and bt: "\<And>a. partial_assignment cw doms a \<Longrightarrow> length (variables cw) < length a + n
               \<Longrightarrow> \<exists>r. backtrack n cw doms a = Inr (r, doms)"
    and pa: "partial_assignment cw doms a"
    and var: "var \<in> set (variables cw)" "map_of a var = None"
    and len: "length (variables cw) \<le> length a + n"
  shows "set ws \<subseteq> set (doms var) \<Longrightarrow> \<exists>r. try_words n cw doms a var ws = Inr (r, doms)"
proof (induction ws)
  case Nil
  then show ?case by simp
next
  case (Cons w ws)
  let ?as = "a @ [(var, w)]"
  note step = try_words_step [OF var(2), of n cw doms w ws]
  from Cons.prems have w: "w \<in> set (doms var)" and ws: "set ws \<subseteq> set (doms var)" by simp_all
  from Cons.IH [OF ws] obtain r0 where r0: "try_words n cw doms a var ws = Inr (r0, doms)"
    by blast
  note pa' = partial_assignment_extend [OF pa var w]
  from consistent_total [OF wf nc pa'] obtain ok where ok: "consistent cw ?as = Inr ok" by blast
  from len have "length (variables cw) < length ?as + n" by simp
  from bt [OF pa' this] obtain res where b: "backtrack n cw doms ?as = Inr (res, doms)" by blast
  from ok b r0 show ?case unfolding step by (cases ok; cases res) simp_all
qed

lemma backtrack_total:
  assumes wf: "wf_crossword cw" and nc: "node_consistent cw doms"
  shows "partial_assignment cw doms a \<Longrightarrow> length (variables cw) < length a + n
           \<Longrightarrow> \<exists>r. backtrack n cw doms a = Inr (r, doms)"
proof (induction n arbitrary: a)
  case 0
  from partial_assignment_length [OF "0.prems"(1)]
  have "length a \<le> card (set (variables cw))" by (simp add: card_mono)
  also have "\<dots> \<le> length (variables cw)" by (rule card_length)
  finally show ?case using "0.prems"(2) by simp
next
  case (Suc n)
  show ?case
  proof (cases "length a = length (variables cw)")
    case True
    then show ?thesis by simp
  next
    case False
    from wf have dv: "distinct (variables cw)" by (simp add: wf_crossword_def)
    from Suc.prems(1) have da: "distinct (map fst a)" by (simp add: partial_assignment_def)
    from unassigned_exists [OF dv da partial_assignment_length(2) [OF Suc.prems(1)] False]
    obtain u where "u \<in> set (variables cw)" "map_of a u = None" by blast
    from select_total [OF this] obtain var where
      sel: "select_unassigned_variable cw doms a = Inr var" by blast
    note v = select_result(1,2) [OF sel]
    from order_domain_values_wf_total [OF wf nc v(1)] obtain ordered where
      ord: "order_domain_values cw doms var a = Inr ordered" by blast
    from Suc.prems(2) have "length (variables cw) \<le> length a + n" by simp
    from try_words_total [OF wf nc Suc.IH Suc.prems(1) v this
        order_domain_values_subset [OF ord]]
    obtain r where "try_words n cw doms a var ordered = Inr (r, doms)" by blast
    with False sel ord show ?thesis by simp
  qed
qed

lemma cross_facts:
  "variables (cross_puzzle ws) = [slot_across, slot_down]"
  "overlaps (cross_puzzle ws) (slot_across, slot_down) = Some (1, 1)"
  "overlaps (cross_puzzle ws) (slot_down, slot_across) = Some (1, 1)"
  "neighbors (cross_puzzle ws) slot_across = [slot_down]"
  "neighbors (cross_puzzle ws) slot_down = [slot_across]"
  "slot_across \<noteq> slot_down" "slot_down \<noteq> slot_across"
  by (simp_all add: neighbors_def puzzle_defs)

lemma cross_cat_dogs_domains:
  "node_consistent_domains (cross_puzzle [''CAT'', ''DOGS'']) slot_across = [''CAT'']"
  "node_consistent_domains (cross_puzzle [''CAT'', ''DOGS'']) slot_down = [''DOGS'']"
  by (simp_all add: example_defs)

subsection \<open>An empty domain\<close>

lemma empty_domain_select:
  assumes v: "v \<in> set (variables cw)" "doms v = []" "map_of a v = None"
  shows "\<exists>var. select_unassigned_variable cw doms a = Inr var \<and> doms var = []"
proof -
  from select_total [OF v(1,3)] obtain var where
    sel: "select_unassigned_variable cw doms a = Inr var" by blast
  from select_result(3) [OF sel v(1,3)] v(2) have "doms var = []" by simp
  with sel show ?thesis by blast
qed

lemma empty_domain_backtrack:
  assumes v: "v \<in> set (variables cw)" "doms v = []" "map_of a v = None"
    and a: "distinct (map fst a)" "fst ` set a \<subseteq> set (variables cw)"
  shows "backtrack (Suc depth) cw doms a = Inr (None, doms)"
proof -
  from unassigned_incomplete [OF v(1,3) a] have ne: "length a \<noteq> length (variables cw)" by simp
  from empty_domain_select [of v cw doms a, OF v] obtain var where
    sel: "select_unassigned_variable cw doms a = Inr var" and e: "doms var = []" by blast
  from order_domain_values_empty [of doms var cw a, OF e]
  have "order_domain_values cw doms var a = Inr []" .
  with ne sel show ?thesis by simp
qed

lemma all_arcs_firsts: "fst ` set (all_arcs cw) \<subseteq> set (variables cw)"
  by (auto simp: all_arcs_def)

lemma ac3_failure_solve:
  assumes "ac3 cw (enforce_node_consistency cw doms0) None = Inr (False, doms2)"
  shows "solve (Suc depth) cw doms0 = Inr (None, doms2)"
proof -
  from assms have "ac3_loop cw (enforce_node_consistency cw doms0) (all_arcs cw)
      = Inr (False, doms2)" by (simp add: ac3_def)
  from ac3_loop_False [OF this] all_arcs_firsts [of cw] obtain x where
    x: "x \<in> set (variables cw)" "doms2 x = []" by blast
  have "backtrack (Suc depth) cw doms2 [] = Inr (None, doms2)"
    by (rule empty_domain_backtrack [of x cw doms2 "[]", OF x]) simp_all
  with assms show ?thesis by (simp add: solve_def Let_def)
qed

text \<open>
  Claim C10. When some variable of the puzzle has an empty domain, \<open>backtrack\<close> on a partial
  assignment that does not hold that variable returns \<open>None\<close> in its own frame: the variable
  selected has an empty domain, \<open>order_domain_values\<close> gives the empty list, and the loop over
  the words does nothing. Hence, when \<open>ac3\<close> fails, \<open>solve\<close> returns \<open>None\<close> although it does
  not look at the result of \<open>ac3\<close>.
\<close>

theorem C10_empty_domain_no_solution:
  "(v \<in> set (variables cw) \<and> doms v = [] \<and> map_of a v = None \<and>
    distinct (map fst a) \<and> fst ` set a \<subseteq> set (variables cw) \<longrightarrow>
      (\<exists>var. select_unassigned_variable cw doms a = Inr var \<and> doms var = [] \<and>
             order_domain_values cw doms var a = Inr []) \<and>
      backtrack (Suc depth) cw doms a = Inr (None, doms)) \<and>
   (ac3 cw (enforce_node_consistency cw doms0) None = Inr (False, doms2) \<longrightarrow>
      solve (Suc depth) cw doms0 = Inr (None, doms2))"
proof (intro conjI impI)
  assume h: "v \<in> set (variables cw) \<and> doms v = [] \<and> map_of a v = None \<and>
    distinct (map fst a) \<and> fst ` set a \<subseteq> set (variables cw)"
  then have v: "v \<in> set (variables cw)" "doms v = []" "map_of a v = None"
    and a: "distinct (map fst a)" "fst ` set a \<subseteq> set (variables cw)" by simp_all
  from empty_domain_select [of v cw doms a, OF v] obtain var where
    "select_unassigned_variable cw doms a = Inr var" "doms var = []" by blast
  with order_domain_values_empty [of doms var cw a]
  show "\<exists>var. select_unassigned_variable cw doms a = Inr var \<and> doms var = [] \<and>
      order_domain_values cw doms var a = Inr []" by blast
  show "backtrack (Suc depth) cw doms a = Inr (None, doms)"
    by (rule empty_domain_backtrack [of v cw doms a, OF v a])
next
  assume "ac3 cw (enforce_node_consistency cw doms0) None = Inr (False, doms2)"
  then show "solve (Suc depth) cw doms0 = Inr (None, doms2)" by (rule ac3_failure_solve)
qed

lemma cross_cat_dogs_ac3:
  "ac3 (cross_puzzle [''CAT'', ''DOGS''])
       (enforce_node_consistency (cross_puzzle [''CAT'', ''DOGS''])
          (init_domains (cross_puzzle [''CAT'', ''DOGS'']))) None
     = Inr (False, (node_consistent_domains (cross_puzzle [''CAT'', ''DOGS'']))
                     (slot_across := []))"
proof -
  let ?P = "cross_puzzle [''CAT'', ''DOGS'']"
  have "ac3 ?P (node_consistent_domains ?P) None
          = Inr (False, (node_consistent_domains ?P)(slot_across := []))"
    by (simp add: ac3_def all_arcs_def revise_def char_at_def remove_words_def cross_facts
        cross_cat_dogs_domains)
  then show ?thesis by (simp add: node_consistent_domains_def)
qed

theorem C10_empty_domain_no_solution_witness:
  "slot_across \<in> set (variables (cross_puzzle [''CAT'', ''DOGS''])) \<and>
   ((node_consistent_domains (cross_puzzle [''CAT'', ''DOGS'']))(slot_across := [])) slot_across = [] \<and>
   map_of [(slot_down, ''DOGS'')] slot_across = None \<and>
   distinct (map fst [(slot_down, ''DOGS'')]) \<and>
   fst ` set [(slot_down, ''DOGS'')] \<subseteq> set (variables (cross_puzzle [''CAT'', ''DOGS''])) \<and>
   backtrack (Suc 0) (cross_puzzle [''CAT'', ''DOGS''])
     ((node_consistent_domains (cross_puzzle [''CAT'', ''DOGS'']))(slot_across := []))
     [(slot_down, ''DOGS'')]
     = Inr (None, (node_consistent_domains (cross_puzzle [''CAT'', ''DOGS'']))(slot_across := [])) \<and>
   ac3 (cross_puzzle [''CAT'', ''DOGS''])
       (enforce_node_consistency (cross_puzzle [''CAT'', ''DOGS''])
          (init_domains (cross_puzzle [''CAT'', ''DOGS'']))) None
     = Inr (False, (node_consistent_domains (cross_puzzle [''CAT'', ''DOGS'']))
                     (slot_across := [])) \<and>
   solve (Suc 0) (cross_puzzle [''CAT'', ''DOGS'']) (init_domains (cross_puzzle [''CAT'', ''DOGS'']))
     = Inr (None, (node_consistent_domains (cross_puzzle [''CAT'', ''DOGS'']))(slot_across := []))"
proof -
  let ?P = "cross_puzzle [''CAT'', ''DOGS'']"
  let ?D = "(node_consistent_domains ?P)(slot_across := [])"
  let ?a = "[(slot_down, ''DOGS'')]"
  have h: "slot_across \<in> set (variables ?P) \<and> ?D slot_across = [] \<and>
      map_of ?a slot_across = None \<and> distinct (map fst ?a) \<and>
      fst ` set ?a \<subseteq> set (variables ?P)"
    by (simp add: cross_facts)
  note c10 = C10_empty_domain_no_solution [of slot_across ?P ?D ?a 0 "init_domains ?P" ?D]
  from c10 h have b: "backtrack (Suc 0) ?P ?D ?a = Inr (None, ?D)" by blast
  from c10 cross_cat_dogs_ac3 have s: "solve (Suc 0) ?P (init_domains ?P) = Inr (None, ?D)"
    by blast
  from h b cross_cat_dogs_ac3 s show ?thesis by blast
qed

subsection \<open>\<open>solve\<close> does not stop when \<open>ac3\<close> fails\<close>

text \<open>
  Claim C3 as the specification states it: when \<open>ac3\<close> fails, \<open>solve\<close> reports failure at
  once and \<open>backtrack\<close> is not called. It is called: on the puzzle with the words CAT and
  DOGS \<open>ac3\<close> returns \<open>False\<close>, and \<open>solve\<close> with no frame left for \<open>backtrack\<close> raises
  \<open>RecursionError\<close>, which only the call of \<open>backtrack\<close> can raise.
\<close>

theorem C3_solve_calls_backtrack_counterexample:
  "ac3 (cross_puzzle [''CAT'', ''DOGS''])
       (enforce_node_consistency (cross_puzzle [''CAT'', ''DOGS''])
          (init_domains (cross_puzzle [''CAT'', ''DOGS'']))) None
     = Inr (False, (node_consistent_domains (cross_puzzle [''CAT'', ''DOGS'']))
                     (slot_across := [])) \<and>
   solve 0 (cross_puzzle [''CAT'', ''DOGS'']) (init_domains (cross_puzzle [''CAT'', ''DOGS'']))
     = Inl RecursionError"
  using cross_cat_dogs_ac3 by (simp add: solve_def Let_def)

text \<open>
  Claim C3, amended. When \<open>ac3\<close> fails, \<open>solve\<close> goes on: its result is the result of
  \<open>backtrack\<close> on the empty assignment with the domains that \<open>ac3\<close> left. That call needs
  one frame and returns \<open>None\<close> in it, so \<open>solve\<close> reports that there is no solution.
\<close>

theorem C3_solve_after_ac3_failure:
  assumes "ac3 cw (enforce_node_consistency cw doms0) None = Inr (False, doms2)"
  shows "solve depth cw doms0 = backtrack depth cw doms2 [] \<and>
         solve 0 cw doms0 = Inl RecursionError \<and>
         solve (Suc depth) cw doms0 = Inr (None, doms2)"
  using assms ac3_failure_solve [OF assms, of depth] by (simp add: solve_def Let_def)

theorem C3_solve_after_ac3_failure_witness:
  "ac3 (cross_puzzle [''CAT'', ''DOGS''])
       (enforce_node_consistency (cross_puzzle [''CAT'', ''DOGS''])
          (init_domains (cross_puzzle [''CAT'', ''DOGS'']))) None
     = Inr (False, (node_consistent_domains (cross_puzzle [''CAT'', ''DOGS'']))
                     (slot_across := [])) \<and>
   solve 0 (cross_puzzle [''CAT'', ''DOGS'']) (init_domains (cross_puzzle [''CAT'', ''DOGS'']))
     = Inl RecursionError \<and>
   solve (Suc 0) (cross_puzzle [''CAT'', ''DOGS'']) (init_domains (cross_puzzle [''CAT'', ''DOGS'']))
     = Inr (None, (node_consistent_domains (cross_puzzle [''CAT'', ''DOGS'']))(slot_across := []))"
  using C3_solve_after_ac3_failure [OF cross_cat_dogs_ac3, of 0] cross_cat_dogs_ac3 by blast

subsection \<open>Only the consistency phase changes the domains\<close>

lemma revise_shrinks:
  assumes "revise cw doms x y = Inr (changed, doms')"
  shows "set (doms' v) \<subseteq> set (doms v)"
proof (cases "overlaps cw (x, y)")
  case None
  with assms show ?thesis by (simp add: revise_def)
next
  case (Some ov)
  from revise_Some(1) [OF Some assms] show ?thesis by auto
qed

lemma ac3_loop_shrinks:
  "ac3_loop cw doms arc_list = Inr (b, doms') \<Longrightarrow> set (doms' v) \<subseteq> set (doms v)"
proof (induction cw doms arc_list rule: ac3_loop.induct)
  case (1 cw doms)
  then show ?case by simp
next
  case (2 cw doms current_arc arc_list)
  from "2.prems" obtain revised d1 where
    r: "revise cw doms (fst current_arc) (snd current_arc) = Inr (revised, d1)"
    by (auto split: sum.splits)
  note s1 = revise_shrinks [OF r, of v]
  show ?case
  proof (cases revised)
    case False
    with "2.prems" r have l: "ac3_loop cw d1 arc_list = Inr (b, doms')" by simp
    from "2.IH"(2) [OF r refl _ l] False s1 show ?thesis by auto
  next
    case True
    then have rt: "revised = True" by simp
    show ?thesis
    proof (cases "length (d1 (fst current_arc)) = 0")
      case e: True
      with "2.prems" r True have "doms' = d1" by simp
      with s1 show ?thesis by simp
    next
      case ne: False
      with "2.prems" r True
      have l: "ac3_loop cw d1 (requeue cw current_arc arc_list) = Inr (b, doms')" by simp
      from "2.IH"(1) [OF r refl rt ne l] s1 show ?thesis by auto
    qed
  qed
qed

lemma enforce_node_consistency_shrinks:
  "set (enforce_node_consistency cw doms v) \<subseteq> set (doms v)"
  by (auto simp: enforce_node_consistency_eq)



subsection \<open>The whole of \<open>solve\<close> raises nothing\<close>

lemma revise_total_wf:
  assumes wf: "wf_crossword cw" and nc: "node_consistent cw doms"
    and x: "x \<in> set (variables cw)" and y: "y \<in> set (neighbors cw x)"
  shows "\<exists>r. revise cw doms x y = Inr r"
proof -
  from wf_neighbour [OF wf x y] obtain i j where
    yv: "y \<in> set (variables cw)" and
    ij: "overlaps cw (x, y) = Some (i, j)" "i < var_length x" "j < var_length y"
    by blast
  from ij(2) node_consistent_length [OF nc x] have "\<forall>w \<in> set (doms x). i < length w" by simp
  moreover from ij(3) node_consistent_length [OF nc yv]
  have "\<forall>w' \<in> set (doms y). j < length w'" by simp
  ultimately have "indexable (i, j) (doms x) (doms y)" by (simp add: indexable_def)
  with ij(1) show ?thesis using revise_ok_iff [of cw doms x y] by simp
qed

lemma node_consistent_shrink:
  assumes "node_consistent cw d" and "\<And>v. set (d' v) \<subseteq> set (d v)"
  shows "node_consistent cw d'"
  using assms unfolding node_consistent_def list_all_iff by blast

lemma partial_assignment_mono:
  assumes "partial_assignment cw d' a" and "\<And>v. set (d' v) \<subseteq> set (d v)"
  shows "partial_assignment cw d a"
  using assms unfolding partial_assignment_def list_all_iff by blast

lemma requeue_neighbours:
  assumes "\<forall>a \<in> set al. fst a \<in> set (variables cw) \<and> snd a \<in> set (neighbors cw (fst a))"
    and "fst arc \<in> set (variables cw)"
  shows "\<forall>a \<in> set (requeue cw arc al).
           fst a \<in> set (variables cw) \<and> snd a \<in> set (neighbors cw (fst a))"
  using assms by (auto simp: requeue_eq)

lemma all_arcs_neighbours:
  "\<forall>a \<in> set (all_arcs cw). fst a \<in> set (variables cw) \<and> snd a \<in> set (neighbors cw (fst a))"
  by (auto simp: all_arcs_def)

lemma ac3_loop_total:
  assumes wf: "wf_crossword cw"
  shows "node_consistent cw doms \<Longrightarrow>
         \<forall>a \<in> set al. fst a \<in> set (variables cw) \<and> snd a \<in> set (neighbors cw (fst a)) \<Longrightarrow>
         \<exists>r. ac3_loop cw doms al = Inr r"
  using wf
proof (induction cw doms al rule: ac3_loop.induct)
  case (1 cw doms)
  then show ?case by auto
next
  case (2 cw doms current_arc arc_list)
  from "2.prems"(2) have x: "fst current_arc \<in> set (variables cw)"
    and y: "snd current_arc \<in> set (neighbors cw (fst current_arc))"
    and rest: "\<forall>a \<in> set arc_list. fst a \<in> set (variables cw) \<and>
                 snd a \<in> set (neighbors cw (fst a))"
    by simp_all
  from revise_total_wf [OF "2.prems"(3,1) x y] obtain revised d1 where
    r: "revise cw doms (fst current_arc) (snd current_arc) = Inr (revised, d1)" by force
  have nc1: "node_consistent cw d1"
    by (rule node_consistent_shrink [OF "2.prems"(1)]) (rule revise_shrinks [OF r])
  show ?case
  proof (cases revised)
    case False
    from "2.IH"(2) [OF r refl _ nc1 rest "2.prems"(3)] False r show ?thesis by auto
  next
    case True
    then have rt: "revised = True" by simp
    show ?thesis
    proof (cases "length (d1 (fst current_arc)) = 0")
      case e: True
      with r True show ?thesis by auto
    next
      case ne: False
      from "2.IH"(1) [OF r refl rt ne nc1 requeue_neighbours [OF rest x] "2.prems"(3)]
        r True ne show ?thesis by auto
    qed
  qed
qed

lemma enforce_node_consistency_node_consistent:
  "node_consistent cw (enforce_node_consistency cw doms)"
  by (simp add: node_consistent_def list_all_iff enforce_node_consistency_eq)

text \<open>
  Claim C4. Let the puzzle have the overlap table of a grid, and let no complete consistent
  assignment with words of the domains exist. Then \<open>backtrack\<close> on the empty assignment
  returns \<open>None\<close>, on node-consistent domains (the state in which \<open>solve\<close> calls it) and so
  does \<open>solve\<close> as a whole: nothing is raised, and a budget of one frame more than the
  number of variables is enough, so the recursion is never deeper than the number of
  variables.
\<close>

theorem C4_backtrack_no_solution:
  assumes "wf_crossword cw" and "length (variables cw) < depth"
    and "\<not> (\<exists>a. partial_assignment cw doms a \<and> covers_all_variables cw a \<and>
                 consistent_assignment cw a)"
  shows "(node_consistent cw doms \<longrightarrow> backtrack depth cw doms [] = Inr (None, doms)) \<and>
         (\<exists>doms'. solve depth cw doms = Inr (None, doms'))"
proof -
  have none: "backtrack depth cw d [] = Inr (None, d)"
    if nc: "node_consistent cw d" and sub: "\<And>v. set (d v) \<subseteq> set (doms v)" for d
  proof -
    have pa: "partial_assignment cw d []" by (simp add: partial_assignment_def)
    from assms(2) have "length (variables cw) < length ([] :: assignment) + depth" by simp
    from backtrack_total [OF assms(1) nc pa this] obtain r where
      r: "backtrack depth cw d [] = Inr (r, d)" by blast
    show ?thesis
    proof (cases r)
      case None
      with r show ?thesis by simp
    next
      case (Some res)
      from assms(1) have dv: "distinct (variables cw)" by (simp add: wf_crossword_def)
      from r Some have b: "backtrack depth cw d [] = Inr (Some res, d)" by simp
      from backtrack_result [OF b pa] have
        res: "partial_assignment cw d res" "length res = length (variables cw)"
             "res = [] \<or> consistent cw res = Inr True" by simp_all
      have "consistent cw [] = Inr True" by (simp add: consistent_def)
      with res(3) have "consistent cw res = Inr True" by auto
      from consistent_sound [OF this] full_assignment_covers [OF dv res(1,2)]
        partial_assignment_mono [OF res(1) sub] assms(3)
      show ?thesis by blast
    qed
  qed
  have "node_consistent cw doms \<longrightarrow> backtrack depth cw doms [] = Inr (None, doms)"
    using none [of doms] by simp
  moreover have "\<exists>doms'. solve depth cw doms = Inr (None, doms')"
  proof -
    let ?d1 = "enforce_node_consistency cw doms"
    note nc1 = enforce_node_consistency_node_consistent [of cw doms]
    from ac3_loop_total [OF assms(1) nc1 all_arcs_neighbours] obtain b d2 where
      l: "ac3_loop cw ?d1 (all_arcs cw) = Inr (b, d2)" by force
    have sub: "set (d2 v) \<subseteq> set (doms v)" for v
      using ac3_loop_shrinks [OF l, of v] enforce_node_consistency_shrinks [of cw doms v]
      by blast
    have nc2: "node_consistent cw d2"
      by (rule node_consistent_shrink [OF nc1]) (rule ac3_loop_shrinks [OF l])
    from none [OF nc2 sub] l show ?thesis by (simp add: solve_def ac3_def Let_def)
  qed
  ultimately show ?thesis by blast
qed

lemma cross_cat_dogs_no_solution:
  "\<not> (\<exists>a. partial_assignment (cross_puzzle [''CAT'', ''DOGS''])
              (init_domains (cross_puzzle [''CAT'', ''DOGS''])) a \<and>
           covers_all_variables (cross_puzzle [''CAT'', ''DOGS'']) a \<and>
           consistent_assignment (cross_puzzle [''CAT'', ''DOGS'']) a)"
proof
  let ?P = "cross_puzzle [''CAT'', ''DOGS'']"
  let ?D = "init_domains ?P"
  assume "\<exists>a. partial_assignment ?P ?D a \<and> covers_all_variables ?P a \<and>
    consistent_assignment ?P a"
  then obtain a where pa: "partial_assignment ?P ?D a" and cov: "covers_all_variables ?P a"
    and con: "consistent_assignment ?P a" by blast
  from cov obtain w1 w2 where w: "map_of a slot_across = Some w1" "map_of a slot_down = Some w2"
    by (auto simp: covers_all_variables_def cross_facts)
  from w have mem: "(slot_across, w1) \<in> set a" "(slot_down, w2) \<in> set a"
    by (auto dest: map_of_SomeD)
  from con mem have len: "length w1 = 3" "length w2 = 4"
    by (auto simp: consistent_assignment_def lengths_fit_def list_all_iff puzzle_defs)
  from partial_assignment_entry(2) [OF pa w(1)] len(1) have w1: "w1 = ''CAT''"
    by (auto simp: init_domains_def cross_puzzle_def)
  from partial_assignment_entry(2) [OF pa w(2)] len(2) have w2: "w2 = ''DOGS''"
    by (auto simp: init_domains_def cross_puzzle_def)
  from con mem(1) w1
  have "list_all (neighbour_agrees ?P a slot_across ''CAT'') (neighbors ?P slot_across)"
    by (auto simp: consistent_assignment_def overlaps_agree_def list_all_iff)
  then have "neighbour_agrees ?P a slot_across ''CAT'' slot_down" by (simp add: cross_facts)
  with w(2) w2 show False
    by (simp add: neighbour_agrees_def cross_facts matches_def)
qed

theorem C4_backtrack_no_solution_witness:
  "wf_crossword (cross_puzzle [''CAT'', ''DOGS'']) \<and>
   length (variables (cross_puzzle [''CAT'', ''DOGS''])) < 3 \<and>
   \<not> (\<exists>a. partial_assignment (cross_puzzle [''CAT'', ''DOGS''])
              (init_domains (cross_puzzle [''CAT'', ''DOGS''])) a \<and>
           covers_all_variables (cross_puzzle [''CAT'', ''DOGS'']) a \<and>
           consistent_assignment (cross_puzzle [''CAT'', ''DOGS'']) a) \<and>
   (\<exists>doms'. solve 3 (cross_puzzle [''CAT'', ''DOGS''])
              (init_domains (cross_puzzle [''CAT'', ''DOGS''])) = Inr (None, doms')) \<and>
   node_consistent (cross_puzzle [''CAT'', ''DOGS''])
     (node_consistent_domains (cross_puzzle [''CAT'', ''DOGS''])) \<and>
   backtrack 3 (cross_puzzle [''CAT'', ''DOGS''])
     (node_consistent_domains (cross_puzzle [''CAT'', ''DOGS''])) []
     = Inr (None, node_consistent_domains (cross_puzzle [''CAT'', ''DOGS'']))"
proof -
  let ?P = "cross_puzzle [''CAT'', ''DOGS'']"
  let ?D = "node_consistent_domains ?P"
  have wf: "wf_crossword ?P"
    by (simp add: wf_crossword_def cross_facts) (simp add: puzzle_defs)
  have nc: "node_consistent ?P ?D"
    unfolding node_consistent_domains_def by (rule enforce_node_consistency_node_consistent)
  have len: "length (variables ?P) < 3" by (simp add: cross_facts)
  have "\<And>v. set (?D v) \<subseteq> set (init_domains ?P v)"
    unfolding node_consistent_domains_def by (rule enforce_node_consistency_shrinks)
  with cross_cat_dogs_no_solution
  have no: "\<not> (\<exists>a. partial_assignment ?P ?D a \<and> covers_all_variables ?P a \<and>
      consistent_assignment ?P a)"
    using partial_assignment_mono [of ?P ?D _ "init_domains ?P"] by blast
  from C4_backtrack_no_solution [OF wf len cross_cat_dogs_no_solution]
  have s: "\<exists>doms'. solve 3 ?P (init_domains ?P) = Inr (None, doms')" by blast
  from C4_backtrack_no_solution [OF wf len no] nc
  have b: "backtrack 3 ?P ?D [] = Inr (None, ?D)" by blast
  from wf len cross_cat_dogs_no_solution s nc b show ?thesis by blast
qed

end
